theory Spec2Isabelle
  imports Main "HOL-Library.AList"
begin

section \<open>The LRU cache with TTL: data model\<close>

text \<open>
  The class \<open>LRUCache\<close> keeps a \<open>Map\<close> from strings to \<open>LinkedNode\<close> objects (the index) and
  a doubly linked list of \<open>LinkedNode\<close> objects between \<open>head\<close> and \<open>tail\<close>. The nodes are
  mutable objects that are shared between the index, the list links and the head and tail
  fields, so the model has an explicit object store: a reference is the number of the
  allocation that created the object, and the store maps references to node records.

  A JavaScript reference always points to an object. The store is a partial map only so
  that the empty store exists; a lookup that finds nothing is written out as a branch that
  leaves the state alone, and the invariant below shows that no operation takes it.

  Numbers are modelled as \<open>int\<close> (capacity, times in milliseconds) and \<open>nat\<close> (the three
  counters, which only count up from zero). \<open>Date.now()\<close> is an argument of every
  operation that reads the clock. A default argument (\<open>ttl = 60_000\<close>, \<open>capacity = 10\<close>)
  is what the caller passes when it leaves the argument out.
\<close>

type_synonym ref = nat

record 'v LinkedNode =
  key :: string
  "value" :: 'v
  ttl :: int
  prev :: "ref option"
  "next" :: "ref option"

type_synonym 'v store = "ref \<Rightarrow> 'v LinkedNode option"

text \<open>
  The index is a JavaScript \<open>Map\<close>: \<open>get\<close> is \<open>map_of\<close>, \<open>set\<close> replaces the value of a
  key in place or appends a new key (\<open>AList.update\<close>), \<open>delete\<close> drops the key
  (\<open>AList.delete\<close>), \<open>size\<close> is the length and \<open>clear\<close> gives the empty list.
\<close>

record 'v LRUCache =
  capacity :: int
  hash :: "(string \<times> ref) list"
  head :: "ref option"
  tail :: "ref option"
  hitCount :: nat
  missCount :: nat
  evictionCount :: nat
  heap :: "'v store"
  allocated :: nat

subsection \<open>Field reads and writes on the store\<close>

definition prev_of :: "'v store \<Rightarrow> ref \<Rightarrow> ref option" where
  "prev_of h r = (case h r of None \<Rightarrow> None | Some nd \<Rightarrow> prev nd)"

definition next_of :: "'v store \<Rightarrow> ref \<Rightarrow> ref option" where
  "next_of h r = (case h r of None \<Rightarrow> None | Some nd \<Rightarrow> next nd)"

definition key_of :: "'v store \<Rightarrow> ref \<Rightarrow> string option" where
  "key_of h r = (case h r of None \<Rightarrow> None | Some nd \<Rightarrow> Some (key nd))"

definition upd_prev :: "ref \<Rightarrow> ref option \<Rightarrow> 'v store \<Rightarrow> 'v store" where
  "upd_prev r p h = (case h r of None \<Rightarrow> h | Some nd \<Rightarrow> h(r \<mapsto> nd\<lparr>prev := p\<rparr>))"

definition upd_next :: "ref \<Rightarrow> ref option \<Rightarrow> 'v store \<Rightarrow> 'v store" where
  "upd_next r n h = (case h r of None \<Rightarrow> h | Some nd \<Rightarrow> h(r \<mapsto> nd\<lparr>next := n\<rparr>))"

section \<open>The operations of \<open>LRUCache\<close> (version 1.3.0)\<close>

text \<open>The private constructor. The registration of the debug hook is not modelled.\<close>

definition constructor :: "int \<Rightarrow> 'v LRUCache" where
  "constructor cap =
     \<lparr>capacity = cap, hash = [], head = None, tail = None,
      hitCount = 0, missCount = 0, evictionCount = 0,
      heap = (\<lambda>r. None), allocated = 0\<rparr>"

text \<open>
  \<open>getInstance\<close>: the static field \<open>instance\<close> is passed in and returned; the result
  is the shared instance.
\<close>

definition getInstance :: "int \<Rightarrow> 'v LRUCache option \<Rightarrow> 'v LRUCache \<times> 'v LRUCache option" where
  "getInstance cap inst =
     (case inst of
        None \<Rightarrow> (let c = constructor cap in (c, Some c))
      | Some c \<Rightarrow> (c, Some c))"

text \<open>
  \<open>evict(node)\<close>: the four conditional assignments in the order of the source, each
  reading the store as the preceding ones left it, then the reset of the node's own links
  and the removal of its key from the index.
\<close>

definition evict :: "ref \<Rightarrow> 'v LRUCache \<Rightarrow> 'v LRUCache" where
  "evict node s =
     (let h0 = heap s;
          h1 = (case prev_of h0 node of
                  Some p \<Rightarrow> upd_next p (next_of h0 node) h0
                | None \<Rightarrow> h0);
          h2 = (case next_of h1 node of
                  Some n \<Rightarrow> upd_prev n (prev_of h1 node) h1
                | None \<Rightarrow> h1);
          head1 = (if head s = Some node then next_of h2 node else head s);
          tail1 = (if tail s = Some node then prev_of h2 node else tail s);
          h3 = upd_next node None (upd_prev node None h2)
      in s\<lparr>heap := h3, head := head1, tail := tail1,
            hash := (case key_of h3 node of
                       None \<Rightarrow> hash s
                     | Some k \<Rightarrow> AList.delete k (hash s))\<rparr>)"

text \<open>\<open>prepend(key, value, ttl)\<close> allocates the node and returns its reference.\<close>

definition prepend :: "string \<Rightarrow> 'v \<Rightarrow> int \<Rightarrow> 'v LRUCache \<Rightarrow> ref \<times> 'v LRUCache" where
  "prepend k v t s =
     (let node = allocated s;
          h1 = (heap s)(node \<mapsto> \<lparr>key = k, value = v, ttl = t, prev = None, next = None\<rparr>);
          s1 = s\<lparr>heap := h1, allocated := Suc node, hash := AList.update k node (hash s)\<rparr>
      in case head s1 of
           None \<Rightarrow> (node, s1\<lparr>head := Some node, tail := Some node\<rparr>)
         | Some old \<Rightarrow>
             (node, s1\<lparr>heap := upd_prev old (Some node) (upd_next node (Some old) h1),
                       head := Some node\<rparr>))"

text \<open>\<open>pop()\<close> returns the old tail, or nothing for the empty list.\<close>

definition pop :: "'v LRUCache \<Rightarrow> ref option \<times> 'v LRUCache" where
  "pop s =
     (case tail s of
        None \<Rightarrow> (None, s)
      | Some node \<Rightarrow>
          (let s1 = (case prev_of (heap s) node of
                       Some p \<Rightarrow> s\<lparr>heap := upd_next p None (heap s), tail := Some p\<rparr>
                     | None \<Rightarrow> s\<lparr>head := None, tail := None\<rparr>)
           in (Some node, s1\<lparr>heap := upd_prev node None (heap s1)\<rparr>)))"

text \<open>\<open>put(key, value, ttl)\<close> at time \<open>now\<close>; the result \<open>this\<close> is the new state.\<close>

definition put :: "string \<Rightarrow> 'v \<Rightarrow> int \<Rightarrow> int \<Rightarrow> 'v LRUCache \<Rightarrow> 'v LRUCache" where
  "put k v t now s =
     (let s1 = (case map_of (hash s) k of
                  Some node \<Rightarrow> evict node s
                | None \<Rightarrow> s);
          (node, s2) = prepend k v (now + t) s1;
          s3 = s2\<lparr>hash := AList.update k node (hash s2)\<rparr>
      in if int (length (hash s3)) > capacity s3 then
           (case pop s3 of
              (None, s4) \<Rightarrow> s4
            | (Some tailNode, s4) \<Rightarrow>
                (case key_of (heap s4) tailNode of
                   None \<Rightarrow> s4
                 | Some tk \<Rightarrow>
                     s4\<lparr>hash := AList.delete tk (hash s4),
                        evictionCount := evictionCount s4 + 1\<rparr>))
         else s3)"

text \<open>
  \<open>get(key)\<close> at time \<open>now\<close>. The result records which return statement ran:
  \<open>None\<close> for \<open>return undefined\<close> on the miss path, \<open>Some v\<close> for
  \<open>return node.value\<close> on the hit path. The value the caller receives is
  \<open>returned\<close> of it (defined below), in which a hit on a stored \<open>undefined\<close> and a miss
  are the same. The fields of \<open>node\<close> are read after \<open>evict(node)\<close>, as in the source.
\<close>

definition get :: "string \<Rightarrow> int \<Rightarrow> 'v LRUCache \<Rightarrow> 'v option \<times> 'v LRUCache" where
  "get k now s =
     (case map_of (hash s) k of
        None \<Rightarrow> (None, s\<lparr>missCount := missCount s + 1\<rparr>)
      | Some node \<Rightarrow>
          (case heap s node of
             None \<Rightarrow> (None, s\<lparr>missCount := missCount s + 1\<rparr>)
           | Some nd \<Rightarrow>
               if ttl nd < now then (None, s\<lparr>missCount := missCount s + 1\<rparr>)
               else
                 (let s1 = evict node s in
                  case heap s1 node of
                    None \<Rightarrow> (None, s1)
                  | Some nd1 \<Rightarrow>
                      (let (r, s2) = prepend (key nd1) (value nd1) (ttl nd1) s1
                       in (Some (value nd1), s2\<lparr>hitCount := hitCount s2 + 1\<rparr>)))))"

text \<open>
  \<open>getOption\<close> returns the result of a call to the package \<open>adev-monads\<close>, which is not
  part of the repository. The datatype records the call that is made, \<open>OptionSome v\<close> for
  \<open>Option.some(v)\<close> and \<open>OptionNone\<close> for \<open>Option.none()\<close>; it says nothing about the
  objects the package builds. Those are a parameter: see \<open>Option_value\<close> below.
\<close>

datatype 'a Option = OptionSome 'a | OptionNone

definition getOption :: "string \<Rightarrow> int \<Rightarrow> 'v LRUCache \<Rightarrow> 'v Option \<times> 'v LRUCache" where
  "getOption k now s =
     (case map_of (hash s) k of
        None \<Rightarrow> (OptionNone, s\<lparr>missCount := missCount s + 1\<rparr>)
      | Some node \<Rightarrow>
          (case heap s node of
             None \<Rightarrow> (OptionNone, s\<lparr>missCount := missCount s + 1\<rparr>)
           | Some nd \<Rightarrow>
               if ttl nd < now then (OptionNone, s\<lparr>missCount := missCount s + 1\<rparr>)
               else
                 (let s1 = evict node s in
                  case heap s1 node of
                    None \<Rightarrow> (OptionNone, s1)
                  | Some nd1 \<Rightarrow>
                      (let (r, s2) = prepend (key nd1) (value nd1) (ttl nd1) s1
                       in (OptionSome (value nd1), s2\<lparr>hitCount := hitCount s2 + 1\<rparr>)))))"

definition clearMetrics :: "'v LRUCache \<Rightarrow> 'v LRUCache" where
  "clearMetrics s = s\<lparr>hitCount := 0, missCount := 0, evictionCount := 0\<rparr>"

definition clear :: "'v LRUCache \<Rightarrow> 'v LRUCache" where
  "clear s = clearMetrics (s\<lparr>hash := [], head := None, tail := None\<rparr>)"

section \<open>The operations that differ in version 1.0.1 (\<open>src/index.ts\<close>)\<close>

text \<open>
  The older revision of the class has the same \<open>put\<close>, \<open>prepend\<close>, \<open>pop\<close> and \<open>evict\<close>.
  Its \<open>get\<close> unlinks the node before it looks at the expiry time, and its \<open>clear\<close>
  leaves the counters alone.
\<close>

definition index_ts_get :: "string \<Rightarrow> int \<Rightarrow> 'v LRUCache \<Rightarrow> 'v option \<times> 'v LRUCache" where
  "index_ts_get k now s =
     (case map_of (hash s) k of
        None \<Rightarrow> (None, s\<lparr>missCount := missCount s + 1\<rparr>)
      | Some node \<Rightarrow>
          (let s1 = evict node s in
           case heap s1 node of
             None \<Rightarrow> (None, s1)
           | Some nd1 \<Rightarrow>
               if ttl nd1 < now then (None, s1\<lparr>missCount := missCount s1 + 1\<rparr>)
               else
                 (let (r, s2) = prepend (key nd1) (value nd1) (ttl nd1) s1
                  in (Some (value nd1), s2\<lparr>hitCount := hitCount s2 + 1\<rparr>))))"

definition index_ts_clear :: "'v LRUCache \<Rightarrow> 'v LRUCache" where
  "index_ts_clear s = s\<lparr>hash := [], head := None, tail := None\<rparr>"

section \<open>Walking the recency list\<close>

text \<open>
  \<open>walk f n h x\<close> follows the link \<open>f\<close> (\<open>next\<close> or \<open>prev\<close>) from \<open>x\<close> for at most
  \<open>n\<close> nodes and returns the references it visits. It returns \<open>None\<close> when the links do
  not end within \<open>n\<close> nodes, as on a cycle.
\<close>

fun walk :: "('v LinkedNode \<Rightarrow> ref option) \<Rightarrow> nat \<Rightarrow> 'v store \<Rightarrow> ref option \<Rightarrow> ref list option" where
  "walk f n h None = Some []"
| "walk f 0 h (Some r) = None"
| "walk f (Suc n) h (Some r) =
     (case h r of
        None \<Rightarrow> None
      | Some nd \<Rightarrow> (case walk f n h (f nd) of None \<Rightarrow> None | Some rs \<Rightarrow> Some (r # rs)))"

text \<open>The nodes of the list from the head, or nothing when the list is broken.\<close>

definition nodes :: "'v LRUCache \<Rightarrow> ref list option" where
  "nodes s = walk next (allocated s) (heap s) (head s)"

text \<open>
  The index and the list describe the same entries: the index has no key twice, every
  pair of it is a node of the list under that node's own key, and every node of the list
  is what the index gives for the node's key.
\<close>

definition index_ok :: "(ref \<Rightarrow> string option) \<Rightarrow> (string \<times> ref) list \<Rightarrow> ref list \<Rightarrow> bool" where
  "index_ok kf ix rs \<longleftrightarrow>
     distinct (map fst ix) \<and>
     list_all (\<lambda>(k, r). r \<in> set rs \<and> kf r = Some k) ix \<and>
     list_all (\<lambda>r. case kf r of None \<Rightarrow> False | Some k \<Rightarrow> map_of ix k = Some r) rs"

text \<open>
  The invariant of the cache (I1 and I2 of the specification): the walk from the head
  along \<open>next\<close> ends, the walk from the tail along \<open>prev\<close> visits the same nodes in
  reverse order, no node occurs twice, the head has no \<open>prev\<close> and the tail no \<open>next\<close>,
  and the index and the list agree. Every node of the list is an allocated object.
\<close>

definition invariant :: "'v LRUCache \<Rightarrow> bool" where
  "invariant s \<longleftrightarrow>
     (case nodes s of
        None \<Rightarrow> False
      | Some rs \<Rightarrow>
          walk prev (allocated s) (heap s) (tail s) = Some (rev rs) \<and>
          distinct rs \<and>
          list_all (\<lambda>r. r < allocated s) rs \<and>
          (case head s of None \<Rightarrow> True | Some r \<Rightarrow> prev_of (heap s) r = None) \<and>
          (case tail s of None \<Rightarrow> True | Some r \<Rightarrow> next_of (heap s) r = None) \<and>
          index_ok (key_of (heap s)) (hash s) rs)"

text \<open>
  The entries of the cache in recency order, most recently used first: key, value and
  absolute expiry time of each node of the list.
\<close>

definition info :: "'v store \<Rightarrow> ref \<Rightarrow> (string \<times> 'v \<times> int) option" where
  "info h r = (case h r of None \<Rightarrow> None | Some nd \<Rightarrow> Some (key nd, value nd, ttl nd))"

definition entries :: "'v LRUCache \<Rightarrow> (string \<times> 'v \<times> int) list" where
  "entries s = (case nodes s of None \<Rightarrow> [] | Some rs \<Rightarrow> List.map_filter (info (heap s)) rs)"

text \<open>A run of \<open>put\<close> calls, each with its key, value, TTL and the time of the call.\<close>

fun puts :: "(string \<times> 'v \<times> int \<times> int) list \<Rightarrow> 'v LRUCache \<Rightarrow> 'v LRUCache" where
  "puts [] s = s"
| "puts ((k, v, t, now) # ps) s = puts ps (put k v t now s)"

text \<open>
  The two presentations of a lookup result: \<open>toOption\<close> wraps the plain result of
  \<open>get\<close> the way \<open>getOption\<close> presents it.
\<close>

definition toOption :: "'v option \<Rightarrow> 'v Option" where
  "toOption r = (case r of None \<Rightarrow> OptionNone | Some v \<Rightarrow> OptionSome v)"

text \<open>
  The type parameter \<open>T\<close> of the class may contain \<open>undefined\<close> and \<open>null\<close>: the
  values of such a cache are modelled by \<open>'a js\<close>. \<open>returned r\<close> is the value that the
  caller of \<open>get\<close> receives, of type \<open>T | undefined\<close>: \<open>undefined\<close> on the miss path and
  the stored value, whatever it is, on the hit path.
\<close>

datatype 'a js = Undefined | Null | Val 'a

definition returned :: "'a js option \<Rightarrow> 'a js" where
  "returned r = (case r of None \<Rightarrow> Undefined | Some v \<Rightarrow> v)"

text \<open>
  The object that the caller of \<open>getOption\<close> receives, for a package whose
  \<open>Option.some\<close> is the function \<open>some\<close> and whose \<open>Option.none()\<close> is the object
  \<open>none\<close>. Both are parameters, since the package is not in the repository.
\<close>

definition Option_value :: "('v \<Rightarrow> 'o) \<Rightarrow> 'o \<Rightarrow> 'v Option \<Rightarrow> 'o" where
  "Option_value some none c = (case c of OptionSome v \<Rightarrow> some v | OptionNone \<Rightarrow> none)"

section \<open>The recency list as a list of references\<close>

text \<open>
  \<open>path f h x rs y\<close>: following the link \<open>f\<close> from \<open>x\<close> visits exactly the nodes
  \<open>rs\<close>, all of them in the store, and arrives at \<open>y\<close>.
\<close>

primrec path :: "('v LinkedNode \<Rightarrow> ref option) \<Rightarrow> 'v store \<Rightarrow> ref option \<Rightarrow> ref list \<Rightarrow> ref option \<Rightarrow> bool" where
  "path f h x [] y = (x = y)"
| "path f h x (r # rs) y =
     (x = Some r \<and> (case h r of None \<Rightarrow> False | Some nd \<Rightarrow> path f h (f nd) rs y))"

text \<open>
  The doubly linked list with nodes \<open>rs\<close>: a \<open>next\<close> path from the head, a \<open>prev\<close> path
  over the same nodes backwards from the tail, and no node twice.
\<close>

definition dll :: "'v store \<Rightarrow> ref option \<Rightarrow> ref option \<Rightarrow> ref list \<Rightarrow> bool" where
  "dll h x y rs \<longleftrightarrow> path next h x rs None \<and> path prev h y (rev rs) None \<and> distinct rs"

text \<open>
  \<open>rep s rs\<close>: the cache \<open>s\<close> holds exactly the nodes \<open>rs\<close>, most recently used first.
  This is the invariant with the list of nodes named.
\<close>

definition rep :: "'v LRUCache \<Rightarrow> ref list \<Rightarrow> bool" where
  "rep s rs \<longleftrightarrow>
     dll (heap s) (head s) (tail s) rs \<and> (\<forall>r\<in>set rs. r < allocated s) \<and>
     index_ok (key_of (heap s)) (hash s) rs"

text \<open>A run of successful \<open>get\<close> calls for one key, at the given times.\<close>

fun gets :: "string \<Rightarrow> int list \<Rightarrow> 'v LRUCache \<Rightarrow> 'v LRUCache" where
  "gets k [] s = s"
| "gets k (t # ts) s = gets k ts (snd (get k t s))"

section \<open>Paths and walks\<close>

lemma path_append: "path f h x (as @ bs) z = (\<exists>y. path f h x as y \<and> path f h y bs z)"
  by (induction as arbitrary: x) (auto split: option.splits)

lemma path_frame: "r \<notin> set rs \<Longrightarrow> path f (h(r := e)) x rs y = path f h x rs y"
  by (induction rs arbitrary: x) (auto split: option.splits)

lemma path_next_upd_prev: "path next (upd_prev r p h) x rs y = path next h x rs y"
  by (induction rs arbitrary: x) (auto simp: upd_prev_def split: option.splits)

lemma path_prev_upd_next: "path prev (upd_next r n h) x rs y = path prev h x rs y"
  by (induction rs arbitrary: x) (auto simp: upd_next_def split: option.splits)

lemma path_next_upd_next: "r \<notin> set rs \<Longrightarrow> path next (upd_next r n h) x rs y = path next h x rs y"
  by (cases "h r") (simp_all add: upd_next_def path_frame)

lemma path_prev_upd_prev: "r \<notin> set rs \<Longrightarrow> path prev (upd_prev r p h) x rs y = path prev h x rs y"
  by (cases "h r") (simp_all add: upd_prev_def path_frame)

lemma path_snoc: "path f h x (rs @ [r]) y = (path f h x rs (Some r) \<and> (\<exists>nd. h r = Some nd \<and> f nd = y))"
  by (auto simp: path_append split: option.splits)

lemma path_next_set_last:
  "path next h x (rs @ [r]) y \<Longrightarrow> r \<notin> set rs \<Longrightarrow> path next (upd_next r n h) x (rs @ [r]) n"
  by (auto simp: path_snoc path_next_upd_next) (simp add: upd_next_def)

lemma path_prev_set_last:
  "path prev h x (rs @ [r]) y \<Longrightarrow> r \<notin> set rs \<Longrightarrow> path prev (upd_prev r p h) x (rs @ [r]) p"
  by (auto simp: path_snoc path_prev_upd_prev) (simp add: upd_prev_def)

lemma walk_path: "walk f n h x = Some rs \<Longrightarrow> path f h x rs None \<and> length rs \<le> n"
proof (induction f n h x arbitrary: rs rule: walk.induct)
  case (3 f n h r)
  then show ?case by (auto split: option.splits)
qed auto

lemma path_walk: "path f h x rs None \<Longrightarrow> length rs \<le> n \<Longrightarrow> walk f n h x = Some rs"
proof (induction rs arbitrary: x n)
  case Nil
  then show ?case by simp
next
  case (Cons r rs)
  then obtain m where "n = Suc m" by (cases n) auto
  with Cons show ?case by (auto split: option.splits)
qed

lemma path_unique: "path f h x rs None \<Longrightarrow> path f h x rs' None \<Longrightarrow> rs = rs'"
proof (induction rs arbitrary: x rs')
  case Nil
  then show ?case by (cases rs') auto
next
  case (Cons r rs)
  then show ?case by (cases rs') (auto split: option.splits)
qed

section \<open>Unlinking a node\<close>

lemma prev_of_upd_next [simp]: "prev_of (upd_next a n h) r = prev_of h r"
  by (auto simp: prev_of_def upd_next_def split: option.splits)

lemma next_of_upd_prev [simp]: "next_of (upd_prev a p h) r = next_of h r"
  by (auto simp: next_of_def upd_prev_def split: option.splits)

lemma next_of_upd_next_other [simp]: "a \<noteq> r \<Longrightarrow> next_of (upd_next a n h) r = next_of h r"
  by (auto simp: next_of_def upd_next_def split: option.splits)

lemma prev_of_upd_prev_other [simp]: "a \<noteq> r \<Longrightarrow> prev_of (upd_prev a p h) r = prev_of h r"
  by (auto simp: prev_of_def upd_prev_def split: option.splits)

lemma info_upd_prev [simp]: "info (upd_prev a p h) = info h"
  by (rule ext) (auto simp: info_def upd_prev_def split: option.splits)

lemma info_upd_next [simp]: "info (upd_next a n h) = info h"
  by (rule ext) (auto simp: info_def upd_next_def split: option.splits)

lemma key_of_info: "key_of h r = map_option fst (info h r)"
  by (auto simp: key_of_def info_def split: option.splits)

lemma key_of_upd_prev [simp]: "key_of (upd_prev a p h) = key_of h"
  by (rule ext) (simp add: key_of_info)

lemma key_of_upd_next [simp]: "key_of (upd_next a n h) = key_of h"
  by (rule ext) (simp add: key_of_info)

lemma path_start: "path f h x (r # rs) y \<Longrightarrow> x = Some r"
  by simp

lemma path_start_Nil: "path f h x [] y \<Longrightarrow> x = y"
  by simp

lemma path_appendI: "path f h x as y \<Longrightarrow> path f h y bs z \<Longrightarrow> path f h x (as @ bs) z"
  by (auto simp: path_append)

lemma path_next_bypass:
  assumes "path next h x xs (Some r)" and "path next h n ys None"
    and "distinct xs" and "set xs \<inter> set ys = {}"
  shows "path next (case (if xs = [] then None else Some (last xs)) of
                      Some p \<Rightarrow> upd_next p n h | None \<Rightarrow> h)
           (if xs = [] then n else x) (xs @ ys) None"
proof (cases xs rule: rev_cases)
  case Nil
  with assms show ?thesis by simp
next
  case (snoc xs' p)
  with assms have a: "path next (upd_next p n h) x (xs' @ [p]) n"
    by (intro path_next_set_last [where y = "Some r"]) auto
  from snoc assms have b: "path next (upd_next p n h) n ys None"
    by (simp add: path_next_upd_next)
  show ?thesis using snoc path_appendI [OF a b]
    by simp
qed

lemma path_prev_bypass:
  assumes "path prev h y ys (Some r)" and "path prev h p xs None"
    and "distinct ys" and "set ys \<inter> set xs = {}"
  shows "path prev (case (if ys = [] then None else Some (last ys)) of
                      Some n \<Rightarrow> upd_prev n p h | None \<Rightarrow> h)
           (if ys = [] then p else y) (ys @ xs) None"
proof (cases ys rule: rev_cases)
  case Nil
  with assms show ?thesis by simp
next
  case (snoc ys' n)
  with assms have a: "path prev (upd_prev n p h) y (ys' @ [n]) p"
    by (intro path_prev_set_last [where y = "Some r"]) auto
  from snoc assms have b: "path prev (upd_prev n p h) p xs None"
    by (simp add: path_prev_upd_prev)
  show ?thesis using snoc path_appendI [OF a b]
    by simp
qed

lemma path_first: "path f h x rs None \<Longrightarrow> x = (if rs = [] then None else Some (hd rs))"
  by (cases rs) auto

lemma evict_dll:
  assumes "dll h x y (xs @ r # ys)"
  defines "h1 \<equiv> (case prev_of h r of Some p \<Rightarrow> upd_next p (next_of h r) h | None \<Rightarrow> h)"
  defines "h2 \<equiv> (case next_of h1 r of Some n \<Rightarrow> upd_prev n (prev_of h1 r) h1 | None \<Rightarrow> h1)"
  shows "dll (upd_next r None (upd_prev r None h2))
           (if x = Some r then next_of h2 r else x)
           (if y = Some r then prev_of h2 r else y) (xs @ ys)"
proof -
  from assms(1) obtain nd where nd: "h r = Some nd"
    and nx: "path next h x xs (Some r)" and ny: "path next h (next nd) ys None"
    and py: "path prev h y (rev ys) (Some r)" and px: "path prev h (prev nd) (rev xs) None"
    and d: "distinct xs" "distinct ys" "r \<notin> set xs" "r \<notin> set ys" "set xs \<inter> set ys = {}"
    by (auto simp: dll_def path_append split: option.splits)
  have pr: "prev_of h r = (if xs = [] then None else Some (last xs))"
    using path_first [OF px] nd by (simp add: prev_of_def hd_rev)
  have nr: "next_of h r = (if ys = [] then None else Some (hd ys))"
    using path_first [OF ny] nd by (simp add: next_of_def)
  have xr: "x = Some r \<longleftrightarrow> xs = []"
    using nx d by (cases xs) auto
  have yr: "y = Some r \<longleftrightarrow> ys = []"
    using py d by (cases ys rule: rev_cases) auto
  have n1: "path next h1 (if xs = [] then next nd else x) (xs @ ys) None"
    unfolding h1_def pr using path_next_bypass [OF nx ny d(1) d(5)] nd
    by (cases "xs = []") (simp_all add: next_of_def)
  have p1: "path prev h1 y (rev ys) (Some r)" "path prev h1 (prev nd) (rev xs) None"
    using py px by (auto simp: h1_def path_prev_upd_next split: option.splits)
  have "prev_of h1 r = prev_of h r"
    by (simp add: h1_def split: option.splits)
  then have pr1: "prev_of h1 r = prev nd"
    using nd by (simp add: prev_of_def)
  have lx: "xs \<noteq> [] \<Longrightarrow> last xs \<noteq> r"
    using d(3) last_in_set by metis
  have hy: "ys \<noteq> [] \<Longrightarrow> hd ys \<noteq> r"
    using d(4) hd_in_set by metis
  have nr1: "next_of h1 r = (if rev ys = [] then None else Some (last (rev ys)))"
    using nr lx by (auto simp: h1_def pr last_rev)
  have p2: "path prev h2 (if ys = [] then prev nd else y) (rev ys @ rev xs) None"
    unfolding h2_def nr1 pr1 using path_prev_bypass [OF p1] d
    by (cases "ys = []") (simp_all add: Int_commute)
  have n2: "path next h2 (if xs = [] then next nd else x) (xs @ ys) None"
    using n1 by (auto simp: h2_def path_next_upd_prev split: option.splits)
  have "next_of h2 r = next_of h r"
    using lx by (auto simp: h2_def h1_def pr split: option.splits)
  then have nr2: "next_of h2 r = next nd"
    using nd by (simp add: next_of_def)
  have pr2: "prev_of h2 r = prev nd"
    using pr1 hy by (auto simp: h2_def nr1 last_rev)
  show ?thesis
    using n2 p2 d
    by (cases "xs = []"; cases "ys = []")
       (simp_all add: dll_def xr yr nr2 pr2 path_next_upd_prev path_prev_upd_next
          path_next_upd_next path_prev_upd_prev)
qed

section \<open>Linking a new head and dropping the tail\<close>

lemma upd_next_same: "h r = Some nd \<Longrightarrow> upd_next r n h r = Some (nd\<lparr>next := n\<rparr>)"
  by (simp add: upd_next_def)

lemma upd_prev_same: "h r = Some nd \<Longrightarrow> upd_prev r p h r = Some (nd\<lparr>prev := p\<rparr>)"
  by (simp add: upd_prev_def)

lemma upd_next_other: "a \<noteq> r \<Longrightarrow> upd_next a n h r = h r"
  by (simp add: upd_next_def split: option.splits)

lemma upd_prev_other: "a \<noteq> r \<Longrightarrow> upd_prev a p h r = h r"
  by (simp add: upd_prev_def split: option.splits)

lemma prepend_dll_empty:
  "dll (h(a \<mapsto> \<lparr>key = k, value = v, ttl = t, prev = None, next = None\<rparr>)) (Some a) (Some a) [a]"
  by (simp add: dll_def)

lemma path_next_set_last':
  "path next h x rs y \<Longrightarrow> rs \<noteq> [] \<Longrightarrow> distinct rs \<Longrightarrow> path next (upd_next (last rs) n h) x rs n"
  by (cases rs rule: rev_cases) (auto intro: path_next_set_last)

lemma path_prev_set_last':
  "path prev h x rs y \<Longrightarrow> rs \<noteq> [] \<Longrightarrow> distinct rs \<Longrightarrow> path prev (upd_prev (last rs) p h) x rs p"
  by (cases rs rule: rev_cases) (auto intro: path_prev_set_last)

lemma prepend_dll:
  fixes k :: string and v :: 'v and t :: int
  assumes "dll h (Some old) y rs" and "a \<notin> set rs"
  defines "h1 \<equiv> h(a \<mapsto> \<lparr>key = k, value = v, ttl = t, prev = None, next = None\<rparr>)"
  shows "dll (upd_prev old (Some a) (upd_next a (Some old) h1)) (Some a) y (a # rs)"
proof -
  from assms(1) have ne: "rs \<noteq> []" and hd: "hd rs = old"
    by (cases rs; auto simp: dll_def)+
  with assms(2) have oa: "old \<noteq> a" by (metis hd_in_set)
  let ?h2 = "upd_next a (Some old) h1"
  let ?h3 = "upd_prev old (Some a) ?h2"
  have "?h2 a = Some \<lparr>key = k, value = v, ttl = t, prev = None, next = Some old\<rparr>"
    by (simp add: h1_def upd_next_def)
  then have a3: "?h3 a = Some \<lparr>key = k, value = v, ttl = t, prev = None, next = Some old\<rparr>"
    using oa by (simp add: upd_prev_other)
  from assms have "path next ?h3 (Some old) rs None"
    by (simp add: path_next_upd_prev path_next_upd_next h1_def path_frame dll_def)
  with a3 have n: "path next ?h3 (Some a) (a # rs) None"
    by simp
  from assms have "path prev ?h2 y (rev rs) None"
    by (simp add: path_prev_upd_next h1_def path_frame dll_def)
  moreover have "last (rev rs) = old"
    using ne hd by (simp add: last_rev)
  ultimately have "path prev ?h3 y (rev rs) (Some a)"
    using path_prev_set_last' [of ?h2 y "rev rs" None "Some a"] ne assms(1)
    by (simp add: dll_def)
  with a3 have p: "path prev ?h3 y (rev (a # rs)) None"
    by (simp add: path_snoc)
  from n p assms show ?thesis
    unfolding dll_def by simp
qed

lemma pop_dll_single:
  assumes "dll h x (Some node) rs" and "prev_of h node = None"
  shows "rs = [node]"
proof -
  from assms(1) obtain rs' where rs: "rs = rs' @ [node]"
    by (cases rs rule: rev_cases) (auto simp: dll_def)
  with assms have "path prev h None (rev rs') None"
    by (auto simp: dll_def prev_of_def split: option.splits)
  then have "rs' = []" by (cases "rev rs'") auto
  with rs show ?thesis by simp
qed

lemma pop_dll:
  assumes "dll h x (Some node) rs" and "prev_of h node = Some p"
  shows "rs \<noteq> [] \<and> last rs = node \<and>
         dll (upd_prev node None (upd_next p None h)) x (Some p) (butlast rs)"
proof -
  from assms(1) obtain rs' where rs: "rs = rs' @ [node]"
    by (cases rs rule: rev_cases) (auto simp: dll_def)
  with assms have pp: "path prev h (Some p) (rev rs') None" and d: "node \<notin> set rs'" "distinct rs'"
    by (auto simp: dll_def prev_of_def split: option.splits)
  from pp have ne: "rs' \<noteq> []" and lp: "last rs' = p"
    by (cases rs' rule: rev_cases; auto)+
  from assms(1) have "path next h x rs' (Some node)"
    by (simp add: dll_def rs path_snoc)
  then have "path next (upd_next p None h) x rs' None"
    using path_next_set_last' [of h x rs' "Some node" None] ne d lp by simp
  with pp d show ?thesis
    by (simp add: rs dll_def path_next_upd_prev path_prev_upd_next path_prev_upd_prev)
qed

section \<open>The index\<close>

lemma index_ok_iff:
  "index_ok kf ix rs \<longleftrightarrow>
     distinct (map fst ix) \<and>
     (\<forall>k r. map_of ix k = Some r \<longleftrightarrow> r \<in> set rs \<and> kf r = Some k) \<and>
     (\<forall>r\<in>set rs. kf r \<noteq> None)"
proof
  assume a: "index_ok kf ix rs"
  then have d: "distinct (map fst ix)"
    and f: "\<And>k r. (k, r) \<in> set ix \<Longrightarrow> r \<in> set rs \<and> kf r = Some k"
    and b: "\<And>r. r \<in> set rs \<Longrightarrow> \<exists>k. kf r = Some k \<and> map_of ix k = Some r"
    by (auto simp: index_ok_def list_all_iff split: option.splits)
  have "\<And>k r. map_of ix k = Some r \<longleftrightarrow> r \<in> set rs \<and> kf r = Some k"
    using f b by (metis map_of_SomeD option.inject)
  with d b show "distinct (map fst ix) \<and>
     (\<forall>k r. map_of ix k = Some r \<longleftrightarrow> r \<in> set rs \<and> kf r = Some k) \<and>
     (\<forall>r\<in>set rs. kf r \<noteq> None)"
    by (metis option.distinct(1))
next
  assume a: "distinct (map fst ix) \<and>
     (\<forall>k r. map_of ix k = Some r \<longleftrightarrow> r \<in> set rs \<and> kf r = Some k) \<and>
     (\<forall>r\<in>set rs. kf r \<noteq> None)"
  from a have d: "distinct (map fst ix)"
    by (rule conjunct1)
  have m: "\<And>k r. (k, r) \<in> set ix \<Longrightarrow> map_of ix k = Some r"
    using map_of_eq_Some_iff [OF d] by blast
  from a have e: "\<And>k r. map_of ix k = Some r \<longleftrightarrow> r \<in> set rs \<and> kf r = Some k"
    by blast
  from a have t: "\<And>r. r \<in> set rs \<Longrightarrow> \<exists>k. kf r = Some k"
    by blast
  have "list_all (\<lambda>(k, r). r \<in> set rs \<and> kf r = Some k) ix"
    unfolding list_all_iff
  proof
    fix x assume "x \<in> set ix"
    then have "map_of ix (fst x) = Some (snd x)" using m [of "fst x" "snd x"] by simp
    then show "case x of (k, r) \<Rightarrow> r \<in> set rs \<and> kf r = Some k"
      using e [of "fst x" "snd x"] by (simp add: case_prod_beta)
  qed
  moreover have "list_all (\<lambda>r. case kf r of None \<Rightarrow> False | Some k \<Rightarrow> map_of ix k = Some r) rs"
    unfolding list_all_iff
  proof
    fix r assume r: "r \<in> set rs"
    with t obtain k where "kf r = Some k" by blast
    with r e [of k r] show "case kf r of None \<Rightarrow> False | Some k \<Rightarrow> map_of ix k = Some r"
      by simp
  qed
  ultimately show "index_ok kf ix rs"
    using d by (simp add: index_ok_def)
qed

lemma index_okD:
  assumes "index_ok kf ix rs"
  shows "distinct (map fst ix)"
    and "map_of ix k = Some r \<longleftrightarrow> r \<in> set rs \<and> kf r = Some k"
    and "r \<in> set rs \<Longrightarrow> kf r \<noteq> None"
  using assms unfolding index_ok_iff by blast+

lemma index_okI:
  assumes "distinct (map fst ix)"
    and "\<And>k r. map_of ix k = Some r \<longleftrightarrow> r \<in> set rs \<and> kf r = Some k"
    and "\<And>r. r \<in> set rs \<Longrightarrow> kf r \<noteq> None"
  shows "index_ok kf ix rs"
  unfolding index_ok_iff using assms by blast

lemma index_ok_length:
  assumes "index_ok kf ix rs" and "distinct rs"
  shows "length ix = length rs"
proof -
  note d = index_okD(1) [OF assms(1)]
  have e: "(k, r) \<in> set ix \<longleftrightarrow> r \<in> set rs \<and> kf r = Some k" for k r
    using index_okD(2) [OF assms(1), of k r] map_of_eq_Some_iff [OF d, of k r] by simp
  have t: "\<exists>k. kf r = Some k" if "r \<in> set rs" for r
    using index_okD(3) [OF assms(1) that] by auto
  have "inj_on snd (set ix)"
  proof (rule inj_onI)
    fix x y assume xy: "x \<in> set ix" "y \<in> set ix" "snd x = snd y"
    obtain k r where x: "x = (k, r)" by (cases x)
    obtain k' r' where y: "y = (k', r')" by (cases y)
    from xy x y have "kf r = Some k" "kf r = Some k'"
      using e [of k r] e [of k' r'] by auto
    with xy x y show "x = y" by simp
  qed
  moreover have "snd ` set ix = set rs"
  proof (intro set_eqI iffI)
    fix r assume "r \<in> snd ` set ix"
    then obtain k where "(k, r) \<in> set ix" by auto
    then show "r \<in> set rs" using e [of k r] by simp
  next
    fix r assume r: "r \<in> set rs"
    with t obtain k where "kf r = Some k" by blast
    with r have "(k, r) \<in> set ix" using e [of k r] by simp
    then show "r \<in> snd ` set ix" by force
  qed
  ultimately have "card (set ix) = card (set rs)"
    by (metis card_image)
  moreover from d have "distinct ix"
    by (simp add: distinct_map)
  ultimately show ?thesis
    using assms(2) by (simp add: distinct_card)
qed

lemma index_ok_delete:
  assumes "index_ok kf ix (xs @ r # ys)" and "kf r = Some k" and "distinct (xs @ r # ys)"
  shows "index_ok kf (AList.delete k ix) (xs @ ys)"
proof (rule index_okI)
  show "distinct (map fst (AList.delete k ix))"
    using index_okD(1) [OF assms(1)] by (rule distinct_delete)
next
  fix k' r'
  note m = index_okD(2) [OF assms(1)]
  show "map_of (AList.delete k ix) k' = Some r' \<longleftrightarrow> r' \<in> set (xs @ ys) \<and> kf r' = Some k'"
  proof (cases "k' = k")
    case True
    have "\<not> (r' \<in> set (xs @ ys) \<and> kf r' = Some k)"
      using m [of k r'] m [of k r] assms(2,3) by auto
    with True show ?thesis by (simp add: delete_conv')
  next
    case False
    then have "map_of (AList.delete k ix) k' = map_of ix k'" by simp
    with False m [of k' r'] assms(2) show ?thesis by auto
  qed
next
  fix r' assume "r' \<in> set (xs @ ys)"
  then show "kf r' \<noteq> None"
    using index_okD(3) [OF assms(1), of r'] by auto
qed

lemma index_ok_update:
  assumes "index_ok kf ix rs" and "a \<notin> set rs" and "map_of ix k = None"
    and "kf' a = Some k" and "\<And>r. r \<in> set rs \<Longrightarrow> kf' r = kf r"
  shows "index_ok kf' (AList.update k a ix) (a # rs)"
proof (rule index_okI)
  show "distinct (map fst (AList.update k a ix))"
    using index_okD(1) [OF assms(1)] by (rule distinct_update)
next
  fix k' r'
  note m = index_okD(2) [OF assms(1)]
  show "map_of (AList.update k a ix) k' = Some r' \<longleftrightarrow> r' \<in> set (a # rs) \<and> kf' r' = Some k'"
  proof (cases "k' = k")
    case True
    have "\<not> (r' \<in> set rs \<and> kf r' = Some k)"
      using m [of k r'] assms(3) by simp
    with True assms(2,4,5) show ?thesis by (auto simp: update_conv')
  next
    case False
    with m [of k' r'] assms(2,4,5) show ?thesis by (auto simp: update_conv')
  qed
next
  fix r' assume "r' \<in> set (a # rs)"
  then show "kf' r' \<noteq> None"
    using index_okD(3) [OF assms(1), of r'] assms(4,5) by auto
qed

lemma index_ok_cong:
  assumes "index_ok kf ix rs" and "\<And>r. r \<in> set rs \<Longrightarrow> kf' r = kf r"
  shows "index_ok kf' ix rs"
proof (rule index_okI)
  show "distinct (map fst ix)" by (rule index_okD(1) [OF assms(1)])
next
  fix k r
  show "map_of ix k = Some r \<longleftrightarrow> r \<in> set rs \<and> kf' r = Some k"
    using index_okD(2) [OF assms(1), of k r] assms(2) [of r] by auto
next
  fix r assume "r \<in> set rs"
  then show "kf' r \<noteq> None"
    using index_okD(3) [OF assms(1), of r] assms(2) [of r] by simp
qed

section \<open>The invariant names a list of nodes\<close>

lemma dll_Nil_iff: "dll h x y [] \<longleftrightarrow> x = None \<and> y = None"
  by (auto simp: dll_def)

lemma dll_head: "dll h x y rs \<Longrightarrow> x = (if rs = [] then None else Some (hd rs))"
  unfolding dll_def using path_first by blast

lemma dll_tail: "dll h x y rs \<Longrightarrow> y = (if rs = [] then None else Some (last rs))"
  unfolding dll_def using path_first [of prev h y "rev rs"] by (simp add: hd_rev)

lemma dll_node: "dll h x y rs \<Longrightarrow> r \<in> set rs \<Longrightarrow> \<exists>nd. h r = Some nd"
  by (auto simp: dll_def in_set_conv_decomp path_append split: option.splits)

lemma bounded_length:
  assumes "distinct rs" and "\<forall>r\<in>set rs. r < (n::nat)"
  shows "length rs \<le> n"
proof -
  from assms(2) have "set rs \<subseteq> {..<n}" by auto
  then have "card (set rs) \<le> card {..<n}" by (intro card_mono) auto
  with assms(1) show ?thesis by (simp add: distinct_card)
qed

lemma rep_nodes: "rep s rs \<Longrightarrow> nodes s = Some rs"
  unfolding rep_def nodes_def dll_def
  by (intro path_walk) (auto intro: bounded_length)

lemma path_end:
  "path f h x rs None \<Longrightarrow> rs \<noteq> [] \<Longrightarrow> \<exists>nd. h (last rs) = Some nd \<and> f nd = None"
  by (cases rs rule: rev_cases) (auto simp: path_snoc)

lemma rep_invariant:
  assumes "rep s rs"
  shows "invariant s"
proof -
  from assms have d: "dll (heap s) (head s) (tail s) rs"
    and b: "\<forall>r\<in>set rs. r < allocated s"
    and i: "index_ok (key_of (heap s)) (hash s) rs"
    by (auto simp: rep_def)
  from d b have "length rs \<le> allocated s"
    by (auto simp: dll_def intro: bounded_length)
  with d have w: "walk prev (allocated s) (heap s) (tail s) = Some (rev rs)"
    by (intro path_walk) (auto simp: dll_def)
  have hp: "case head s of None \<Rightarrow> True | Some r \<Rightarrow> prev_of (heap s) r = None"
  proof (cases rs)
    case Nil
    with d show ?thesis by (simp add: dll_Nil_iff)
  next
    case (Cons a list)
    with d path_end [of prev "heap s" "tail s" "rev rs"] dll_head [OF d]
    show ?thesis by (auto simp: dll_def prev_of_def last_rev)
  qed
  have tn: "case tail s of None \<Rightarrow> True | Some r \<Rightarrow> next_of (heap s) r = None"
  proof (cases rs)
    case Nil
    with d show ?thesis by (simp add: dll_Nil_iff)
  next
    case (Cons a list)
    with d path_end [of "next" "heap s" "head s" rs] dll_tail [OF d]
    show ?thesis by (auto simp: dll_def next_of_def)
  qed
  show ?thesis
    using rep_nodes [OF assms] w d b i hp tn
    by (simp add: invariant_def dll_def list_all_iff)
qed

lemma invariant_rep:
  assumes "invariant s"
  shows "\<exists>rs. rep s rs"
proof -
  from assms obtain rs where n: "nodes s = Some rs"
    by (auto simp: invariant_def split: option.splits)
  with assms have w: "walk prev (allocated s) (heap s) (tail s) = Some (rev rs)"
    and r: "distinct rs" "list_all (\<lambda>r. r < allocated s) rs"
      "index_ok (key_of (heap s)) (hash s) rs"
    by (auto simp: invariant_def)
  from n have "path next (heap s) (head s) rs None"
    unfolding nodes_def by (auto dest: walk_path)
  moreover from w have "path prev (heap s) (tail s) (rev rs) None"
    by (auto dest: walk_path)
  ultimately have "rep s rs"
    using r by (simp add: rep_def dll_def list_all_iff)
  then show ?thesis ..
qed

lemma invariant_iff_rep: "invariant s \<longleftrightarrow> (\<exists>rs. rep s rs)"
  using invariant_rep rep_invariant by blast

section \<open>The three list primitives on a cache\<close>

lemma evict_frame:
  "allocated (evict r s) = allocated s" "capacity (evict r s) = capacity s"
  "hitCount (evict r s) = hitCount s" "missCount (evict r s) = missCount s"
  "evictionCount (evict r s) = evictionCount s"
  "info (heap (evict r s)) = info (heap s)" "key_of (heap (evict r s)) = key_of (heap s)"
  by (simp_all add: evict_def Let_def split: option.splits)

lemma evict_hash:
  "key_of (heap s) r = Some k \<Longrightarrow> hash (evict r s) = AList.delete k (hash s)"
  by (simp add: evict_def Let_def split: option.splits)

lemma evict_links:
  "dll (heap s) (head s) (tail s) (xs @ r # ys) \<Longrightarrow>
   dll (heap (evict r s)) (head (evict r s)) (tail (evict r s)) (xs @ ys)"
  using evict_dll [of "heap s" "head s" "tail s" xs r ys]
  by (simp add: evict_def Let_def)

lemma evict_rep:
  assumes "rep s rs" and "map_of (hash s) k = Some r"
  shows "rep (evict r s) (removeAll r rs)"
    and "map_of (hash (evict r s)) k = None"
proof -
  from assms(1) have d: "dll (heap s) (head s) (tail s) rs"
    and b: "\<forall>r\<in>set rs. r < allocated s"
    and i: "index_ok (key_of (heap s)) (hash s) rs"
    by (auto simp: rep_def)
  from index_okD(2) [OF i, of k r] assms(2) have r: "r \<in> set rs" and kr: "key_of (heap s) r = Some k"
    by auto
  from r obtain xs ys where rs: "rs = xs @ r # ys"
    by (auto simp: in_set_conv_decomp)
  from d have dist: "distinct rs" by (simp add: dll_def)
  with rs have ra: "removeAll r rs = xs @ ys" by auto
  have "dll (heap (evict r s)) (head (evict r s)) (tail (evict r s)) (xs @ ys)"
    using d unfolding rs by (rule evict_links)
  moreover have "index_ok (key_of (heap (evict r s))) (hash (evict r s)) (xs @ ys)"
    using index_ok_delete [of "key_of (heap s)" "hash s" xs r ys k] i kr dist
    by (simp add: evict_frame evict_hash [OF kr] rs)
  moreover have "\<forall>x\<in>set (xs @ ys). x < allocated (evict r s)"
    using b by (simp add: rs evict_frame)
  ultimately show "rep (evict r s) (removeAll r rs)"
    unfolding ra rep_def by blast
  show "map_of (hash (evict r s)) k = None"
    by (simp add: evict_hash [OF kr] delete_conv')
qed

lemma prepend_frame:
  "fst (prepend k v t s) = allocated s"
  "allocated (snd (prepend k v t s)) = Suc (allocated s)"
  "capacity (snd (prepend k v t s)) = capacity s"
  "hitCount (snd (prepend k v t s)) = hitCount s"
  "missCount (snd (prepend k v t s)) = missCount s"
  "evictionCount (snd (prepend k v t s)) = evictionCount s"
  "hash (snd (prepend k v t s)) = AList.update k (allocated s) (hash s)"
  by (simp_all add: prepend_def Let_def split: option.splits)

lemma info_fun_upd:
  "info (h(a \<mapsto> nd)) = (info h)(a \<mapsto> (key nd, value nd, ttl nd))"
  by (rule ext) (simp add: info_def)

lemma prepend_info:
  "info (heap (snd (prepend k v t s))) = (info (heap s))(allocated s \<mapsto> (k, v, t))"
  by (simp add: prepend_def Let_def info_fun_upd split: option.splits)

lemma prepend_rep:
  assumes "rep s rs" and "map_of (hash s) k = None"
  shows "rep (snd (prepend k v t s)) (allocated s # rs)"
proof -
  let ?a = "allocated s" and ?s = "snd (prepend k v t s)"
  from assms(1) have d: "dll (heap s) (head s) (tail s) rs"
    and b: "\<forall>r\<in>set rs. r < allocated s"
    and i: "index_ok (key_of (heap s)) (hash s) rs"
    by (auto simp: rep_def)
  from b have fresh: "?a \<notin> set rs" by auto
  have l: "dll (heap ?s) (head ?s) (tail ?s) (?a # rs)"
  proof (cases "head s")
    case None
    with dll_head [OF d] have "rs = []" by (simp split: if_splits)
    with None show ?thesis
      by (simp add: prepend_def Let_def prepend_dll_empty)
  next
    case (Some old)
    with d have "dll (heap s) (Some old) (tail s) rs" by simp
    from prepend_dll [OF this fresh, of k v t] Some show ?thesis
      by (simp add: prepend_def Let_def)
  qed
  have kf: "key_of (heap ?s) r = (if r = ?a then Some k else key_of (heap s) r)" for r
    using prepend_info [of k v t s] by (simp add: key_of_info)
  have "index_ok (key_of (heap ?s)) (hash ?s) (?a # rs)"
    unfolding prepend_frame
    by (rule index_ok_update [OF i fresh assms(2)]) (use fresh kf in auto)
  with l b show ?thesis
    by (auto simp: rep_def prepend_frame)
qed

lemma pop_empty: "tail s = None \<Longrightarrow> pop s = (None, s)"
  by (simp add: pop_def)

lemma pop_frame:
  "allocated (snd (pop s)) = allocated s" "capacity (snd (pop s)) = capacity s"
  "hitCount (snd (pop s)) = hitCount s" "missCount (snd (pop s)) = missCount s"
  "evictionCount (snd (pop s)) = evictionCount s" "hash (snd (pop s)) = hash s"
  "info (heap (snd (pop s))) = info (heap s)" "key_of (heap (snd (pop s))) = key_of (heap s)"
  by (simp_all add: pop_def Let_def split: option.splits)

lemma pop_links:
  assumes "dll (heap s) (head s) (tail s) rs" and "rs \<noteq> []"
  shows "fst (pop s) = Some (last rs)"
    and "dll (heap (snd (pop s))) (head (snd (pop s))) (tail (snd (pop s))) (butlast rs)"
proof -
  from dll_tail [OF assms(1)] assms(2) have t: "tail s = Some (last rs)" by simp
  then show "fst (pop s) = Some (last rs)"
    by (simp add: pop_def Let_def)
  show "dll (heap (snd (pop s))) (head (snd (pop s))) (tail (snd (pop s))) (butlast rs)"
  proof (cases "prev_of (heap s) (last rs)")
    case None
    with assms(1) t have "rs = [last rs]" by (intro pop_dll_single) auto
    then have "butlast rs = []" by (metis butlast.simps(2))
    with None t show ?thesis
      by (simp add: pop_def Let_def dll_Nil_iff)
  next
    case (Some p)
    from assms(1) t have "dll (heap s) (head s) (Some (last rs)) rs" by simp
    from pop_dll [OF this Some] Some t show ?thesis
      by (simp add: pop_def Let_def)
  qed
qed

section \<open>The entries of a cache\<close>

lemma rep_info:
  assumes "rep s rs" and "r \<in> set rs"
  shows "\<exists>e. info (heap s) r = Some e \<and> key_of (heap s) r = Some (fst e)"
proof -
  from assms have "\<exists>nd. heap s r = Some nd"
    by (auto simp: rep_def dest: dll_node)
  then show ?thesis by (auto simp: info_def key_of_def)
qed

lemma map_filter_total:
  "\<forall>r\<in>set rs. f r \<noteq> None \<Longrightarrow> List.map_filter f rs = map (the \<circ> f) rs"
  by (induction rs) (auto simp: List.map_filter_simps)

lemma rep_entries: "rep s rs \<Longrightarrow> entries s = map (the \<circ> info (heap s)) rs"
  using rep_info [of s rs]
  by (simp add: entries_def rep_nodes) (rule map_filter_total, fastforce)

lemma rep_key_lookup:
  assumes "rep s rs" and "r \<in> set rs"
  shows "fst (the (info (heap s) r)) = k \<longleftrightarrow> map_of (hash s) k = Some r"
proof -
  from rep_info [OF assms] obtain e where e: "info (heap s) r = Some e"
    "key_of (heap s) r = Some (fst e)" by blast
  from assms(1) have "index_ok (key_of (heap s)) (hash s) rs" by (simp add: rep_def)
  from index_okD(2) [OF this, of k r] assms(2) e show ?thesis by auto
qed

lemma rep_distinct: "rep s rs \<Longrightarrow> distinct rs"
  by (simp add: rep_def dll_def)

lemma rep_length_hash: "rep s rs \<Longrightarrow> length (hash s) = length rs"
  by (auto simp: rep_def dll_def intro: index_ok_length)

lemma rep_entries_remove:
  assumes "rep s rs" and "map_of (hash s) k = Some r"
  shows "map (the \<circ> info (heap s)) (removeAll r rs) = filter (\<lambda>e. fst e \<noteq> k) (entries s)"
proof -
  have "filter ((\<lambda>e. fst e \<noteq> k) \<circ> (the \<circ> info (heap s))) rs = filter ((\<noteq>) r) rs"
    using rep_key_lookup [OF assms(1), of _ k] assms(2)
    by (intro filter_cong) auto
  then show ?thesis
    by (simp add: rep_entries [OF assms(1)] filter_map removeAll_filter_not_eq)
qed

lemma rep_entries_absent:
  assumes "rep s rs" and "map_of (hash s) k = None"
  shows "filter (\<lambda>e. fst e \<noteq> k) (entries s) = entries s"
proof -
  have "filter ((\<lambda>e. fst e \<noteq> k) \<circ> (the \<circ> info (heap s))) rs = rs"
    using rep_key_lookup [OF assms(1), of _ k] assms(2)
    by (intro filter_True) auto
  then show ?thesis
    by (simp add: rep_entries [OF assms(1)] filter_map)
qed

text \<open>The first step of put: the old node of the key, if any, is unlinked.\<close>

lemma put_unlink:
  fixes k :: string
  assumes "rep s rs"
  defines "s1 \<equiv> (case map_of (hash s) k of Some node \<Rightarrow> evict node s | None \<Rightarrow> s)"
  shows "\<exists>rs1. rep s1 rs1 \<and> map_of (hash s1) k = None \<and>
           map (the \<circ> info (heap s)) rs1 = filter (\<lambda>e. fst e \<noteq> k) (entries s)"
    and "info (heap s1) = info (heap s)" and "allocated s1 = allocated s"
    and "capacity s1 = capacity s" and "hitCount s1 = hitCount s"
    and "missCount s1 = missCount s" and "evictionCount s1 = evictionCount s"
proof -
  show "\<exists>rs1. rep s1 rs1 \<and> map_of (hash s1) k = None \<and>
           map (the \<circ> info (heap s)) rs1 = filter (\<lambda>e. fst e \<noteq> k) (entries s)"
  proof (cases "map_of (hash s) k")
    case None
    with assms(1) rep_entries_absent [OF assms(1) None] rep_entries [OF assms(1)]
    show ?thesis by (auto simp: s1_def)
  next
    case (Some r)
    with evict_rep [OF assms(1) Some] rep_entries_remove [OF assms(1) Some]
    show ?thesis by (auto simp: s1_def)
  qed
qed (simp_all add: s1_def evict_frame split: option.splits)

section \<open>What \<open>put\<close> does to the entries\<close>

lemma prepend_rehash:
  "AList.update k (fst (prepend k v t s)) (hash (snd (prepend k v t s))) =
   hash (snd (prepend k v t s))"
  by (simp add: prepend_frame)

lemma put_unfold:
  "put k v t now s =
     (let s1 = (case map_of (hash s) k of Some node \<Rightarrow> evict node s | None \<Rightarrow> s);
          s2 = snd (prepend k v (now + t) s1)
      in if int (length (hash s2)) > capacity s2 then
           (case fst (pop s2) of
              None \<Rightarrow> snd (pop s2)
            | Some tailNode \<Rightarrow>
                (case key_of (heap (snd (pop s2))) tailNode of
                   None \<Rightarrow> snd (pop s2)
                 | Some tk \<Rightarrow>
                     (snd (pop s2))\<lparr>hash := AList.delete tk (hash (snd (pop s2))),
                        evictionCount := evictionCount (snd (pop s2)) + 1\<rparr>))
         else s2)"
  by (simp add: put_def Let_def case_prod_beta prepend_rehash)

lemma insert_rep:
  fixes k :: string and v :: 'v and e :: int
  assumes "rep s1 rs1" and "map_of (hash s1) k = None"
  defines "s2 \<equiv> snd (prepend k v e s1)"
  shows "rep s2 (allocated s1 # rs1)"
    and "entries s2 = (k, v, e) # map (the \<circ> info (heap s1)) rs1"
    and "length (hash s2) = Suc (length rs1)"
proof -
  show r: "rep s2 (allocated s1 # rs1)"
    unfolding s2_def by (rule prepend_rep [OF assms(1,2)])
  from assms(1) have "allocated s1 \<notin> set rs1" by (auto simp: rep_def)
  then have "map (the \<circ> info (heap s2)) rs1 = map (the \<circ> info (heap s1)) rs1"
    by (intro map_cong) (auto simp: s2_def prepend_info)
  then show "entries s2 = (k, v, e) # map (the \<circ> info (heap s1)) rs1"
    by (simp add: rep_entries [OF r]) (simp add: s2_def prepend_info)
  show "length (hash s2) = Suc (length rs1)"
    using rep_length_hash [OF r] by simp
qed

lemma drop_last_rep:
  assumes "rep s2 rs" and "rs \<noteq> []"
  defines "s4 \<equiv> snd (pop s2)"
  shows "\<exists>tk. fst (pop s2) = Some (last rs) \<and> key_of (heap s4) (last rs) = Some tk \<and>
           rep (s4\<lparr>hash := AList.delete tk (hash s4), evictionCount := evictionCount s4 + 1\<rparr>)
             (butlast rs)"
proof -
  from assms(1) have d: "dll (heap s2) (head s2) (tail s2) rs"
    and b: "\<forall>r\<in>set rs. r < allocated s2"
    and i: "index_ok (key_of (heap s2)) (hash s2) rs"
    by (auto simp: rep_def)
  from rep_info [OF assms(1), of "last rs"] assms(2) obtain tk
    where tk: "key_of (heap s2) (last rs) = Some tk" by auto
  have rs: "rs = butlast rs @ last rs # []"
    using assms(2) by simp
  have "index_ok (key_of (heap s2)) (AList.delete tk (hash s2)) (butlast rs @ [])"
    by (rule index_ok_delete [where r = "last rs"]) (use i tk d rs in \<open>auto simp: dll_def\<close>)
  moreover have "\<forall>r\<in>set (butlast rs). r < allocated s2"
    using b by (auto dest: in_set_butlastD)
  ultimately have "rep (s4\<lparr>hash := AList.delete tk (hash s4), evictionCount := evictionCount s4 + 1\<rparr>)
             (butlast rs)"
    using pop_links(2) [OF d assms(2)]
    by (simp add: rep_def s4_def pop_frame)
  with pop_links(1) [OF d assms(2)] tk show ?thesis
    by (auto simp: s4_def pop_frame)
qed

lemma put_rep:
  fixes k :: string and v :: 'v and t now :: int
  assumes "rep s rs"
  defines "es \<equiv> (k, v, now + t) # filter (\<lambda>e. fst e \<noteq> k) (entries s)"
  shows "\<exists>rs'. rep (put k v t now s) rs'"
    and "entries (put k v t now s) = (if int (length es) > capacity s then butlast es else es)"
    and "evictionCount (put k v t now s) =
           (if int (length es) > capacity s then evictionCount s + 1 else evictionCount s)"
    and "capacity (put k v t now s) = capacity s"
    and "hitCount (put k v t now s) = hitCount s"
    and "missCount (put k v t now s) = missCount s"
proof -
  define s1 where "s1 = (case map_of (hash s) k of Some node \<Rightarrow> evict node s | None \<Rightarrow> s)"
  define s2 where "s2 = snd (prepend k v (now + t) s1)"
  define s4 where "s4 = snd (pop s2)"
  from put_unlink [OF assms(1), of k, folded s1_def] obtain rs1
    where r1: "rep s1 rs1" and k1: "map_of (hash s1) k = None"
      and e1: "map (the \<circ> info (heap s)) rs1 = filter (\<lambda>e. fst e \<noteq> k) (entries s)"
      and f1: "info (heap s1) = info (heap s)" "capacity s1 = capacity s"
        "hitCount s1 = hitCount s" "missCount s1 = missCount s"
        "evictionCount s1 = evictionCount s"
    by blast
  note ins = insert_rep [OF r1 k1, of v "now + t", folded s2_def]
  have es2: "entries s2 = es"
    using ins(2) e1 by (simp add: es_def f1)
  have len: "length (hash s2) = length es"
    using ins(3) e1 [symmetric] by (simp add: es_def)
  have f2: "capacity s2 = capacity s" "hitCount s2 = hitCount s" "missCount s2 = missCount s"
    "evictionCount s2 = evictionCount s"
    by (simp_all add: s2_def prepend_frame f1)
  have p: "put k v t now s =
     (if int (length es) > capacity s then
        (case fst (pop s2) of
           None \<Rightarrow> s4
         | Some tailNode \<Rightarrow>
             (case key_of (heap s4) tailNode of
                None \<Rightarrow> s4
              | Some tk \<Rightarrow> s4\<lparr>hash := AList.delete tk (hash s4),
                               evictionCount := evictionCount s4 + 1\<rparr>))
      else s2)"
    unfolding put_unfold Let_def s1_def [symmetric] s2_def [symmetric] s4_def [symmetric] len f2
    by (rule refl)
  have main: "(\<exists>rs'. rep (put k v t now s) rs') \<and>
       entries (put k v t now s) = (if int (length es) > capacity s then butlast es else es) \<and>
       evictionCount (put k v t now s) =
           (if int (length es) > capacity s then evictionCount s + 1 else evictionCount s) \<and>
       capacity (put k v t now s) = capacity s \<and>
       hitCount (put k v t now s) = hitCount s \<and>
       missCount (put k v t now s) = missCount s"
  proof (cases "int (length es) > capacity s")
    case False
    with ins(1) es2 f2 show ?thesis
      by (auto simp: p)
  next
    case True
    from drop_last_rep [OF ins(1), folded s4_def] obtain tk
      where t1: "fst (pop s2) = Some (last (allocated s1 # rs1))"
        and t2: "key_of (heap s4) (last (allocated s1 # rs1)) = Some tk"
        and t3: "rep (s4\<lparr>hash := AList.delete tk (hash s4),
                         evictionCount := evictionCount s4 + 1\<rparr>) (butlast (allocated s1 # rs1))"
      by blast
    let ?s5 = "s4\<lparr>hash := AList.delete tk (hash s4), evictionCount := evictionCount s4 + 1\<rparr>"
    have p5: "put k v t now s = ?s5"
      using True t1 t2 by (simp add: p)
    have "entries ?s5 = map (the \<circ> info (heap s2)) (butlast (allocated s1 # rs1))"
      using rep_entries [OF t3] by (simp add: s4_def pop_frame)
    also have "\<dots> = butlast (entries s2)"
      by (simp only: rep_entries [OF ins(1)] map_butlast)
    finally have "entries ?s5 = butlast es"
      by (simp add: es2)
    with True t3 f2 show ?thesis
      unfolding p5 by (auto simp: s4_def pop_frame)
  qed
  from main show "\<exists>rs'. rep (put k v t now s) rs'"
    and "entries (put k v t now s) = (if int (length es) > capacity s then butlast es else es)"
    and "evictionCount (put k v t now s) =
           (if int (length es) > capacity s then evictionCount s + 1 else evictionCount s)"
    and "capacity (put k v t now s) = capacity s"
    and "hitCount (put k v t now s) = hitCount s"
    and "missCount (put k v t now s) = missCount s"
    by blast+
qed

section \<open>What \<open>get\<close> does to the entries\<close>

lemma info_Some_iff:
  "info h r = Some e \<longleftrightarrow> (\<exists>nd. h r = Some nd \<and> e = (key nd, value nd, ttl nd))"
  by (auto simp: info_def split: option.splits)

lemma entries_absent:
  assumes "rep s rs" and "map_of (hash s) k = None"
  shows "k \<notin> fst ` set (entries s)"
proof
  assume "k \<in> fst ` set (entries s)"
  then obtain r where "r \<in> set rs" "fst (the (info (heap s) r)) = k"
    by (auto simp: rep_entries [OF assms(1)])
  with rep_key_lookup [OF assms(1), of r k] assms(2) show False by simp
qed

lemma entries_present:
  assumes "rep s rs" and "map_of (hash s) k = Some r"
  shows "\<exists>nd. heap s r = Some nd \<and> key nd = k \<and> (k, value nd, ttl nd) \<in> set (entries s) \<and>
           (\<forall>v e. (k, v, e) \<in> set (entries s) \<longrightarrow> v = value nd \<and> e = ttl nd)"
proof -
  from assms(1) have i: "index_ok (key_of (heap s)) (hash s) rs" by (simp add: rep_def)
  from index_okD(2) [OF i, of k r] assms(2) have r: "r \<in> set rs" by simp
  from rep_info [OF assms(1) r] obtain nd where nd: "heap s r = Some nd"
    by (auto simp: info_Some_iff)
  then have g: "the (info (heap s) r) = (key nd, value nd, ttl nd)"
    by (simp add: info_def)
  with rep_key_lookup [OF assms(1) r, of k] assms(2) have kk: "key nd = k" by simp
  have "(k, value nd, ttl nd) \<in> set (entries s)"
    using r g kk by (force simp: rep_entries [OF assms(1)])
  moreover have "v = value nd \<and> e = ttl nd" if "(k, v, e) \<in> set (entries s)" for v e
  proof -
    from that obtain r' where r': "r' \<in> set rs" "the (info (heap s) r') = (k, v, e)"
      by (auto simp: rep_entries [OF assms(1)])
    with rep_key_lookup [OF assms(1) r'(1), of k] assms(2) have "r' = r" by simp
    with r' g show ?thesis by simp
  qed
  ultimately show ?thesis using nd kk by blast
qed

lemma get_miss_absent:
  "map_of (hash s) k = None \<Longrightarrow> get k now s = (None, s\<lparr>missCount := missCount s + 1\<rparr>)"
  by (simp add: get_def)

lemma get_miss_expired:
  "map_of (hash s) k = Some r \<Longrightarrow> heap s r = Some nd \<Longrightarrow> ttl nd < now \<Longrightarrow>
   get k now s = (None, s\<lparr>missCount := missCount s + 1\<rparr>)"
  by (simp add: get_def)

lemma evict_keeps_node:
  assumes "heap s r = Some nd"
  shows "\<exists>nd1. heap (evict r' s) r = Some nd1 \<and> key nd1 = key nd \<and> value nd1 = value nd \<and>
           ttl nd1 = ttl nd"
proof -
  from assms have "info (heap (evict r' s)) r = Some (key nd, value nd, ttl nd)"
    by (simp add: evict_frame info_def)
  then show ?thesis by (auto simp: info_Some_iff)
qed

lemma entries_hitCount_update [simp]: "entries (s\<lparr>hitCount := n\<rparr>) = entries s"
  by (simp add: entries_def nodes_def cong: option.case_cong)

lemma entries_missCount_update [simp]: "entries (s\<lparr>missCount := n\<rparr>) = entries s"
  by (simp add: entries_def nodes_def cong: option.case_cong)

lemma rep_hitCount_update [simp]: "rep (s\<lparr>hitCount := n\<rparr>) rs = rep s rs"
  by (simp add: rep_def)

lemma rep_missCount_update [simp]: "rep (s\<lparr>missCount := n\<rparr>) rs = rep s rs"
  by (simp add: rep_def)

lemma get_hit_rep:
  assumes "rep s rs" and "map_of (hash s) k = Some r" and "heap s r = Some nd"
    and "\<not> ttl nd < now"
  defines "s' \<equiv> snd (get k now s)"
  shows "fst (get k now s) = Some (value nd)"
    and "rep s' (allocated s # removeAll r rs)"
    and "entries s' = (k, value nd, ttl nd) # filter (\<lambda>e. fst e \<noteq> k) (entries s)"
    and "hitCount s' = hitCount s + 1" and "missCount s' = missCount s"
    and "evictionCount s' = evictionCount s" and "capacity s' = capacity s"
    and "head s' = Some (allocated s)" and "map_of (hash s') k = Some (allocated s)"
    and "info (heap s') (allocated s) = Some (k, value nd, ttl nd)"
proof -
  let ?s1 = "evict r s"
  from evict_keeps_node [OF assms(3), of r] obtain nd1 where nd1: "heap ?s1 r = Some nd1"
    "key nd1 = key nd" "value nd1 = value nd" "ttl nd1 = ttl nd" by blast
  from entries_present [OF assms(1,2)] assms(3) have kk: "key nd = k" by auto
  let ?s2 = "snd (prepend k (value nd) (ttl nd) ?s1)"
  have g: "get k now s = (Some (value nd), ?s2\<lparr>hitCount := hitCount ?s2 + 1\<rparr>)"
    using assms(2,3,4) nd1 kk by (simp add: get_def Let_def case_prod_beta)
  note e = evict_rep [OF assms(1,2)]
  note ins = insert_rep [OF e, of "value nd" "ttl nd"]
  show "fst (get k now s) = Some (value nd)" by (simp add: g)
  show "rep s' (allocated s # removeAll r rs)"
    using ins(1) by (simp add: s'_def g evict_frame)
  have "entries s' = entries ?s2"
    by (simp add: s'_def g)
  then show "entries s' = (k, value nd, ttl nd) # filter (\<lambda>e. fst e \<noteq> k) (entries s)"
    using ins(2) rep_entries_remove [OF assms(1,2)] by (simp add: evict_frame)
  show "hitCount s' = hitCount s + 1" "missCount s' = missCount s"
    "evictionCount s' = evictionCount s" "capacity s' = capacity s"
    by (simp_all add: s'_def g prepend_frame evict_frame)
  show "head s' = Some (allocated s)"
    by (simp add: s'_def g prepend_def Let_def evict_frame split: option.splits)
  show "map_of (hash s') k = Some (allocated s)"
    by (simp add: s'_def g prepend_frame evict_frame update_conv')
  show "info (heap s') (allocated s) = Some (k, value nd, ttl nd)"
    by (simp add: s'_def g prepend_info evict_frame)
qed

section \<open>Claims that follow from the definitions alone\<close>




text \<open>
  The same for any package. The object received from \<open>getOption\<close> is \<open>none\<close> on the miss
  path and \<open>some v\<close> on the hit path. After \<open>put(k, undefined)\<close> it is \<open>some Undefined\<close>
  while \<open>get\<close> returns \<open>undefined\<close>; after \<open>put(k, null)\<close> it is \<open>some Null\<close> while
  \<open>get\<close> returns \<open>null\<close>, so a package whose \<open>some\<close> maps \<open>null\<close> to its \<open>none\<close>
  reports absence where \<open>get\<close> does not return \<open>undefined\<close>.
\<close>

lemma getOption_value_any_package:
  "Option_value some none (fst (getOption k now s)) =
     (case fst (get k now s) of None \<Rightarrow> none | Some v \<Rightarrow> some v)"
  by (simp add: Option_value_def getOption_def get_def Let_def split: option.splits prod.splits)

lemma getOption_stored_undefined_any_package:
  "Option_value some none
     (fst (getOption ''k'' 1 (put ''k'' (Undefined :: int js) 60000 0 (constructor 1)))) =
     some Undefined \<and>
   returned (fst (get ''k'' 1 (put ''k'' (Undefined :: int js) 60000 0 (constructor 1)))) = Undefined"
  by (simp add: Option_value_def returned_def get_def getOption_def evict_def constructor_def
      put_def prepend_def Let_def key_of_def prev_of_def next_of_def upd_prev_def upd_next_def)

lemma getOption_stored_null_any_package:
  "Option_value some none
     (fst (getOption ''k'' 1 (put ''k'' (Null :: int js) 60000 0 (constructor 1)))) = some Null \<and>
   returned (fst (get ''k'' 1 (put ''k'' (Null :: int js) 60000 0 (constructor 1)))) = Null \<and>
   (Null :: int js) \<noteq> Undefined"
  by (simp add: Option_value_def returned_def get_def getOption_def evict_def constructor_def
      put_def prepend_def Let_def key_of_def prev_of_def next_of_def upd_prev_def upd_next_def)

text \<open>
  The \<open>clear\<close> of version 1.3.0: afterwards the index is empty, head and tail are unset,
  the three counters are zero, the cache has no entries, and a lookup of any key gives
  nothing. \<open>clear\<close> is a total function: it has no failing branch.
\<close>

lemma clear_resets_everything:
  "hash (clear s) = [] \<and> head (clear s) = None \<and> tail (clear s) = None \<and>
   hitCount (clear s) = 0 \<and> missCount (clear s) = 0 \<and> evictionCount (clear s) = 0 \<and>
   entries (clear s) = [] \<and>
   fst (get k now (clear s)) = None \<and> fst (getOption k now (clear s)) = OptionNone"
  by (simp add: clear_def clearMetrics_def entries_def nodes_def get_def getOption_def
      List.map_filter_simps)

text \<open>
  C9, as the code has it. The constructor stores whatever capacity it is given and
  \<open>getInstance\<close> on a class without an instance returns that new cache: no capacity is
  rejected.
\<close>

theorem getInstance_accepts_any_capacity:
  "getInstance cap None = (constructor cap, Some (constructor cap)) \<and>
   capacity (fst (getInstance cap None)) = cap"
  by (simp add: getInstance_def constructor_def Let_def)

text \<open>
  C9 as claimed fails: with capacity 0 and with capacity -1 an instance is produced, and
  its capacity is not positive.
\<close>

theorem getInstance_nonpositive_counterexample:
  "getInstance 0 None = (constructor 0 :: nat LRUCache, Some (constructor 0)) \<and>
   capacity (fst (getInstance 0 None :: nat LRUCache \<times> nat LRUCache option)) = 0 \<and>
   capacity (fst (getInstance (- 1) None :: nat LRUCache \<times> nat LRUCache option)) = - 1"
  by (simp add: getInstance_def constructor_def Let_def)

section \<open>Summary on the invariant\<close>

lemma entries_lookup:
  assumes "rep s rs" and "(k, v, e) \<in> set (entries s)"
  shows "\<exists>r nd. map_of (hash s) k = Some r \<and> heap s r = Some nd \<and> key nd = k \<and>
           value nd = v \<and> ttl nd = e"
proof (cases "map_of (hash s) k")
  case None
  from entries_absent [OF assms(1) None] assms(2) show ?thesis by force
next
  case (Some r)
  from entries_present [OF assms(1) Some] assms(2) Some show ?thesis by blast
qed

lemma entries_keys_distinct:
  assumes "rep s rs"
  shows "distinct (map fst (entries s))"
proof -
  have "inj_on (fst \<circ> (the \<circ> info (heap s))) (set rs)"
  proof (rule inj_onI)
    fix x y assume xy: "x \<in> set rs" "y \<in> set rs"
      "(fst \<circ> (the \<circ> info (heap s))) x = (fst \<circ> (the \<circ> info (heap s))) y"
    from rep_key_lookup [OF assms xy(1), of "fst (the (info (heap s) x))"]
      rep_key_lookup [OF assms xy(2), of "fst (the (info (heap s) x))"] xy(3)
    show "x = y" by simp
  qed
  with rep_distinct [OF assms] show ?thesis
    by (simp add: rep_entries [OF assms] distinct_map)
qed

text \<open>The summary of the preceding sections, stated on the invariant.\<close>

lemma invariant_entries:
  assumes "invariant s"
  shows "length (hash s) = length (entries s)" and "distinct (map fst (entries s))"
proof -
  from invariant_rep [OF assms] obtain rs where r: "rep s rs" ..
  show "length (hash s) = length (entries s)"
    by (simp add: rep_length_hash [OF r] rep_entries [OF r])
  show "distinct (map fst (entries s))"
    by (rule entries_keys_distinct [OF r])
qed

lemma put_spec:
  fixes k :: string and v :: 'v and t now :: int
  assumes "invariant s"
  defines "es \<equiv> (k, v, now + t) # filter (\<lambda>e. fst e \<noteq> k) (entries s)"
  shows "invariant (put k v t now s)"
    and "entries (put k v t now s) = (if int (length es) > capacity s then butlast es else es)"
    and "evictionCount (put k v t now s) =
           (if int (length es) > capacity s then evictionCount s + 1 else evictionCount s)"
    and "capacity (put k v t now s) = capacity s"
    and "hitCount (put k v t now s) = hitCount s"
    and "missCount (put k v t now s) = missCount s"
proof -
  from invariant_rep [OF assms(1)] obtain rs where r: "rep s rs" ..
  show "invariant (put k v t now s)"
    unfolding invariant_iff_rep by (rule put_rep(1) [OF r])
qed (use invariant_rep [OF assms(1)] in \<open>auto simp: es_def put_rep\<close>)

lemma get_absent:
  assumes "invariant s" and "k \<notin> fst ` set (entries s)"
  shows "get k now s = (None, s\<lparr>missCount := missCount s + 1\<rparr>)"
proof -
  from invariant_rep [OF assms(1)] obtain rs where r: "rep s rs" ..
  have "map_of (hash s) k = None"
  proof (cases "map_of (hash s) k")
    case (Some x)
    from entries_present [OF r Some] assms(2) show ?thesis by force
  qed simp
  then show ?thesis by (rule get_miss_absent)
qed

lemma get_expired:
  assumes "invariant s" and "(k, v, e) \<in> set (entries s)" and "e < now"
  shows "get k now s = (None, s\<lparr>missCount := missCount s + 1\<rparr>)"
proof -
  from invariant_rep [OF assms(1)] obtain rs where r: "rep s rs" ..
  from entries_lookup [OF r assms(2)] obtain x nd where
    "map_of (hash s) k = Some x" "heap s x = Some nd" "ttl nd = e"
    by blast
  with assms(3) show ?thesis
    by (intro get_miss_expired) auto
qed

lemma get_hit:
  assumes "invariant s" and "(k, v, e) \<in> set (entries s)" and "\<not> e < now"
  shows "fst (get k now s) = Some v"
    and "invariant (snd (get k now s))"
    and "entries (snd (get k now s)) = (k, v, e) # filter (\<lambda>x. fst x \<noteq> k) (entries s)"
    and "hitCount (snd (get k now s)) = hitCount s + 1"
    and "missCount (snd (get k now s)) = missCount s"
    and "evictionCount (snd (get k now s)) = evictionCount s"
    and "capacity (snd (get k now s)) = capacity s"
proof -
  from invariant_rep [OF assms(1)] obtain rs where r: "rep s rs" ..
  from entries_lookup [OF r assms(2)] obtain x nd where
    x: "map_of (hash s) k = Some x" "heap s x = Some nd" "value nd = v" "ttl nd = e"
    by blast
  from x assms(3) have ne: "\<not> ttl nd < now" by simp
  note h = get_hit_rep [OF r x(1,2) ne]
  show "fst (get k now s) = Some v" using h(1) x by simp
  show "invariant (snd (get k now s))" using h(2) by (rule rep_invariant)
  show "entries (snd (get k now s)) = (k, v, e) # filter (\<lambda>x. fst x \<noteq> k) (entries s)"
    using h(3) x by simp
  show "hitCount (snd (get k now s)) = hitCount s + 1"
    "missCount (snd (get k now s)) = missCount s"
    "evictionCount (snd (get k now s)) = evictionCount s"
    "capacity (snd (get k now s)) = capacity s"
    by (rule h)+
qed

lemma invariant_missCount_update [simp]: "invariant (s\<lparr>missCount := n\<rparr>) = invariant s"
  by (simp add: invariant_iff_rep)

lemma get_invariant:
  assumes "invariant s"
  shows "invariant (snd (get k now s))"
proof (cases "k \<in> fst ` set (entries s)")
  case False
  with assms show ?thesis by (simp add: get_absent)
next
  case True
  then obtain v e where ke: "(k, v, e) \<in> set (entries s)" by force
  show ?thesis
  proof (cases "e < now")
    case True
    with assms ke show ?thesis by (simp add: get_expired)
  next
    case False
    with assms ke show ?thesis by (rule get_hit(2))
  qed
qed

lemma constructor_invariant: "invariant (constructor cap)"
  by (simp add: invariant_def constructor_def nodes_def index_ok_def)

lemma constructor_entries: "entries (constructor cap) = []"
  by (simp add: entries_def constructor_def nodes_def List.map_filter_simps)

lemma clear_invariant: "invariant (clear s)"
  by (simp add: invariant_def clear_def clearMetrics_def nodes_def index_ok_def)

section \<open>The invariant is kept\<close>

lemma getOption_snd: "snd (getOption k now s) = snd (get k now s)"
  by (simp add: getOption_def get_def Let_def split: option.splits prod.splits)

lemma getOption_fst: "fst (getOption k now s) = toOption (fst (get k now s))"
  by (simp add: getOption_def get_def toOption_def Let_def split: option.splits prod.splits)

lemma index_ts_get_fresh:
  assumes "map_of (hash s) k = Some r" and "heap s r = Some nd" and "\<not> ttl nd < now"
  shows "index_ts_get k now s = get k now s"
proof -
  from evict_keeps_node [OF assms(2), of r] obtain nd1 where "heap (evict r s) r = Some nd1"
    "key nd1 = key nd" "value nd1 = value nd" "ttl nd1 = ttl nd" by blast
  with assms show ?thesis
    by (simp add: index_ts_get_def get_def Let_def)
qed

lemma index_ts_get_expired:
  assumes "map_of (hash s) k = Some r" and "heap s r = Some nd" and "ttl nd < now"
  shows "index_ts_get k now s = (None, (evict r s)\<lparr>missCount := missCount s + 1\<rparr>)"
proof -
  from evict_keeps_node [OF assms(2), of r] obtain nd1 where "heap (evict r s) r = Some nd1"
    "key nd1 = key nd" "value nd1 = value nd" "ttl nd1 = ttl nd" by blast
  with assms show ?thesis
    by (simp add: index_ts_get_def Let_def evict_frame)
qed

lemma index_ts_get_invariant:
  assumes "invariant s"
  shows "invariant (snd (index_ts_get k now s))"
proof (cases "map_of (hash s) k")
  case None
  with assms show ?thesis by (simp add: index_ts_get_def)
next
  case (Some r)
  from invariant_rep [OF assms] obtain rs where rs: "rep s rs" ..
  from entries_present [OF rs Some] obtain nd where nd: "heap s r = Some nd" by blast
  show ?thesis
  proof (cases "ttl nd < now")
    case True
    from evict_rep(1) [OF rs Some] have "invariant (evict r s)" by (rule rep_invariant)
    then show ?thesis by (simp add: index_ts_get_expired [OF Some nd True])
  next
    case False
    with assms show ?thesis
      by (simp add: index_ts_get_fresh [OF Some nd False] get_invariant)
  qed
qed

lemma index_ts_clear_invariant: "invariant (index_ts_clear s)"
  by (simp add: invariant_def index_ts_clear_def nodes_def index_ok_def)

text \<open>
  C4. The invariant (the index and the list hold the same nodes, each under its own key;
  the list is acyclic and doubly linked, the backward walk being the reverse of the
  forward walk; the head has no \<open>prev\<close>, the tail no \<open>next\<close>) holds for a new cache and
  after \<open>clear\<close>, and \<open>put\<close>, \<open>get\<close> and \<open>getOption\<close> keep it. The \<open>get\<close> and \<open>clear\<close>
  of version 1.0.1 keep it too.
\<close>

theorem invariant_after_every_operation:
  "invariant (constructor cap) \<and> invariant (clear s) \<and> invariant (index_ts_clear s) \<and>
   (invariant s \<longrightarrow>
      invariant (put k v t now s) \<and> invariant (snd (get k now s)) \<and>
      invariant (snd (getOption k now s)) \<and> invariant (snd (index_ts_get k now s)))"
  by (simp add: constructor_invariant clear_invariant index_ts_clear_invariant put_spec(1)
      get_invariant getOption_snd index_ts_get_invariant)

theorem invariant_after_every_operation_witness:
  "invariant (put ''c'' (3::int) 60000 2 (put ''b'' 2 60000 1 (put ''a'' 1 60000 0 (constructor 3)))) \<and>
   nodes (put ''c'' (3::int) 60000 2 (put ''b'' 2 60000 1 (put ''a'' 1 60000 0 (constructor 3)))) =
     Some [2, 1, 0] \<and>
   fst (get ''b'' 5 (put ''c'' (3::int) 60000 2 (put ''b'' 2 60000 1 (put ''a'' 1 60000 0 (constructor 3))))) =
     Some 2 \<and>
   invariant (snd (get ''b'' 5
     (put ''c'' (3::int) 60000 2 (put ''b'' 2 60000 1 (put ''a'' 1 60000 0 (constructor 3)))))) \<and>
   fst (getOption ''a'' 5 (put ''c'' (3::int) 60000 2 (put ''b'' 2 60000 1 (put ''a'' 1 60000 0 (constructor 3))))) =
     OptionSome 1 \<and>
   invariant (snd (getOption ''a'' 5
     (put ''c'' (3::int) 60000 2 (put ''b'' 2 60000 1 (put ''a'' 1 60000 0 (constructor 3)))))) \<and>
   evictionCount (put ''d'' 4 60000 6
     (put ''c'' (3::int) 60000 2 (put ''b'' 2 60000 1 (put ''a'' 1 60000 0 (constructor 3))))) = 1 \<and>
   invariant (put ''d'' 4 60000 6
     (put ''c'' (3::int) 60000 2 (put ''b'' 2 60000 1 (put ''a'' 1 60000 0 (constructor 3))))) \<and>
   invariant (put ''b'' 9 60000 6
     (put ''c'' (3::int) 60000 2 (put ''b'' 2 60000 1 (put ''a'' 1 60000 0 (constructor 3))))) \<and>
   invariant (clear
     (put ''c'' (3::int) 60000 2 (put ''b'' 2 60000 1 (put ''a'' 1 60000 0 (constructor 3))))) \<and>
   invariant (snd (index_ts_get ''c'' 70000
     (put ''c'' (3::int) 60000 2 (put ''b'' 2 60000 1 (put ''a'' 1 60000 0 (constructor 3))))))"
proof -
  define s where "s = put ''c'' (3::int) 60000 2 (put ''b'' 2 60000 1 (put ''a'' 1 60000 0 (constructor 3)))"
  have i: "invariant s"
    unfolding s_def
    by (simp add: invariant_def nodes_def index_ok_def constructor_def put_def prepend_def
        Let_def key_of_def prev_of_def next_of_def upd_prev_def upd_next_def)
  have n: "nodes s = Some [2, 1, 0]"
    unfolding s_def
    by (simp add: nodes_def constructor_def put_def prepend_def Let_def upd_prev_def upd_next_def)
  have g: "fst (get ''b'' 5 s) = Some 2"
    unfolding s_def
    by (simp add: get_def evict_def constructor_def put_def prepend_def Let_def
        key_of_def prev_of_def next_of_def upd_prev_def upd_next_def)
  have o: "fst (getOption ''a'' 5 s) = OptionSome 1"
    unfolding s_def
    by (simp add: getOption_def evict_def constructor_def put_def prepend_def Let_def
        key_of_def prev_of_def next_of_def upd_prev_def upd_next_def)
  have e: "evictionCount (put ''d'' 4 60000 6 s) = 1"
    unfolding s_def
    by (simp add: pop_def evict_def constructor_def put_def prepend_def Let_def
        key_of_def prev_of_def next_of_def upd_prev_def upd_next_def)
  from invariant_after_every_operation [of 3 s "''b''" 9 60000 6]
    invariant_after_every_operation [of 3 s "''b''" 9 60000 5]
    invariant_after_every_operation [of 3 s "''a''" 9 60000 5]
    invariant_after_every_operation [of 3 s "''d''" 4 60000 6]
    invariant_after_every_operation [of 3 s "''c''" 4 60000 70000]
    i n g o e
  show ?thesis
    unfolding s_def [symmetric] by blast
qed

section \<open>Runs of put with distinct keys\<close>

lemma take_append_take: "take n (xs @ take n ys) = take n (xs @ ys)"
  by (simp add: min_def)

lemma put_new_key:
  fixes k :: string and v :: 'v and t now :: int
  assumes "invariant s" and "k \<notin> fst ` set (entries s)"
  shows "entries (put k v t now s) =
           (if int (length (entries s)) + 1 > capacity s
            then butlast ((k, v, now + t) # entries s) else (k, v, now + t) # entries s)"
    and "evictionCount (put k v t now s) =
           (if int (length (entries s)) + 1 > capacity s
            then evictionCount s + 1 else evictionCount s)"
proof -
  from assms(2) have "filter (\<lambda>e. fst e \<noteq> k) (entries s) = entries s"
    by (intro filter_True) force
  with put_spec(2,3) [OF assms(1), of k v t now]
  show "entries (put k v t now s) =
           (if int (length (entries s)) + 1 > capacity s
            then butlast ((k, v, now + t) # entries s) else (k, v, now + t) # entries s)"
    and "evictionCount (put k v t now s) =
           (if int (length (entries s)) + 1 > capacity s
            then evictionCount s + 1 else evictionCount s)"
    by simp_all
qed

lemma put_new_key_take:
  fixes k :: string and v :: 'v and t now :: int
  assumes "invariant s" and "k \<notin> fst ` set (entries s)"
    and "1 \<le> capacity s" and "int (length (entries s)) \<le> capacity s"
  shows "entries (put k v t now s) = take (nat (capacity s)) ((k, v, now + t) # entries s)"
proof (cases "int (length (entries s)) + 1 > capacity s")
  case True
  with assms(4) have "length (entries s) = nat (capacity s)" by linarith
  then have "butlast ((k, v, now + t) # entries s) =
      take (nat (capacity s)) ((k, v, now + t) # entries s)"
    by (simp add: butlast_conv_take)
  with True show ?thesis by (simp only: put_new_key(1) [OF assms(1,2)] if_True)
next
  case False
  then have "length ((k, v, now + t) # entries s) \<le> nat (capacity s)" by simp
  with False show ?thesis by (simp only: put_new_key(1) [OF assms(1,2)] if_False take_all)
qed

lemma puts_distinct:
  assumes "invariant s" and "1 \<le> capacity s" and "int (length (entries s)) \<le> capacity s"
    and "distinct (map fst ps)" and "fst ` set ps \<inter> fst ` set (entries s) = {}"
  shows "invariant (puts ps s) \<and> capacity (puts ps s) = capacity s \<and>
         entries (puts ps s) =
           take (nat (capacity s)) (rev (map (\<lambda>(k, v, t, now). (k, v, now + t)) ps) @ entries s)"
  using assms
proof (induction ps arbitrary: s)
  case Nil
  then show ?case by simp
next
  case (Cons p ps)
  obtain k v t now where p: "p = (k, v, t, now)" by (cases p)
  let ?s = "put k v t now s"
  from Cons.prems p have kn: "k \<notin> fst ` set (entries s)" by auto
  have i: "invariant ?s" and c: "capacity ?s = capacity s"
    using put_spec(1,4) [OF Cons.prems(1)] by auto
  have e: "entries ?s = take (nat (capacity s)) ((k, v, now + t) # entries s)"
    by (rule put_new_key_take [OF Cons.prems(1) kn Cons.prems(2,3)])
  have l: "int (length (entries ?s)) \<le> capacity ?s"
    using Cons.prems(2) by (simp add: e c)
  have "set (entries ?s) \<subseteq> insert (k, v, now + t) (set (entries s))"
    unfolding e using set_take_subset [of "nat (capacity s)" "(k, v, now + t) # entries s"]
    by simp
  then have sub: "fst ` set (entries ?s) \<subseteq> insert k (fst ` set (entries s))"
    by force
  from Cons.prems(4) p have "k \<notin> fst ` set ps" by simp
  moreover from Cons.prems(5) have "fst ` set ps \<inter> fst ` set (entries s) = {}" by auto
  ultimately have d: "fst ` set ps \<inter> fst ` set (entries ?s) = {}"
    using sub by blast
  from Cons.prems(4) have "distinct (map fst ps)" by simp
  from Cons.IH [OF i _ l this d] Cons.prems(2) c
  have "invariant (puts ps ?s) \<and> capacity (puts ps ?s) = capacity s \<and>
        entries (puts ps ?s) =
          take (nat (capacity s)) (rev (map (\<lambda>(k, v, t, now). (k, v, now + t)) ps) @ entries ?s)"
    by simp
  then show ?case
    by (simp add: p e take_append_take)
qed

lemma puts_append: "puts (ps @ qs) s = puts qs (puts ps s)"
  by (induction ps arbitrary: s) auto

lemma puts_constructor:
  assumes "1 \<le> N" and "distinct (map fst ps)"
  shows "invariant (puts ps (constructor N))"
    and "capacity (puts ps (constructor N)) = N"
    and "entries (puts ps (constructor N)) =
           take (nat N) (rev (map (\<lambda>(k, v, t, now). (k, v, now + t)) ps))"
  using puts_distinct [of "constructor N" ps] assms
  by (simp_all add: constructor_invariant constructor_entries) (simp_all add: constructor_def)

lemma invariant_index_keys:
  assumes "invariant s"
  shows "map_of (hash s) k \<noteq> None \<longleftrightarrow> k \<in> fst ` set (entries s)"
proof -
  from invariant_rep [OF assms] obtain rs where r: "rep s rs" ..
  show ?thesis
  proof (cases "map_of (hash s) k")
    case None
    with entries_absent [OF r None] show ?thesis by simp
  next
    case (Some x)
    from entries_present [OF r Some] Some show ?thesis by force
  qed
qed

text \<open>
  C1. For a capacity \<open>N \<ge> 1\<close> and \<open>N + 1\<close> calls of \<open>put\<close> on a new cache with
  pairwise distinct keys and no \<open>get\<close> in between: the first key is gone from the index
  and \<open>get\<close> of it gives nothing; every later key is in the index, its entry holds the
  value and expiry time of its \<open>put\<close>, and \<open>get\<close> of it gives its value unless its
  expiry time has passed. The entries are the last \<open>N\<close> puts, newest first.
\<close>

theorem lru_evicts_first_key:
  assumes "1 \<le> N" and "length ps = nat N + 1" and "distinct (map fst ps)"
  shows "fst (get (fst (hd ps)) now (puts ps (constructor N))) = None \<and>
         map_of (hash (puts ps (constructor N))) (fst (hd ps)) = None \<and>
         entries (puts ps (constructor N)) = rev (map (\<lambda>(k, v, t, at). (k, v, at + t)) (tl ps)) \<and>
         (\<forall>(k, v, t, at) \<in> set (tl ps).
            map_of (hash (puts ps (constructor N))) k \<noteq> None \<and>
            (\<not> at + t < now \<longrightarrow> fst (get k now (puts ps (constructor N))) = Some v))"
proof -
  let ?s = "puts ps (constructor N)" and ?f = "\<lambda>(k, v, t, at). (k, v, at + t)"
  note pc = puts_constructor [OF assms(1,3)]
  have "take (nat N) (rev (map ?f ps)) = rev (drop (Suc 0) (map ?f ps))"
    using assms(2) by (simp add: take_rev)
  also have "\<dots> = rev (map ?f (tl ps))"
    by (simp add: drop_Suc map_tl)
  finally have e: "entries ?s = rev (map ?f (tl ps))"
    using pc(3) by simp
  from assms(2) obtain p ps' where ps: "ps = p # ps'" by (cases ps) auto
  have se: "set (entries ?s) = ?f ` set ps'"
    unfolding e by (simp add: ps)
  have keys: "fst ` set (entries ?s) = fst ` set ps'"
    unfolding se image_image by (simp add: case_prod_beta)
  from assms(3) have "fst (hd ps) \<notin> fst ` set ps'"
    by (simp add: ps)
  then have k1: "fst (hd ps) \<notin> fst ` set (entries ?s)"
    unfolding keys .
  have g1: "fst (get (fst (hd ps)) now ?s) = None"
    using get_absent [OF pc(1) k1] by simp
  have h1: "map_of (hash ?s) (fst (hd ps)) = None"
    using invariant_index_keys [OF pc(1), of "fst (hd ps)"] k1 by simp
  have rest: "map_of (hash ?s) k \<noteq> None \<and> (\<not> at + t < now \<longrightarrow> fst (get k now ?s) = Some v)"
    if "(k, v, t, at) \<in> set (tl ps)" for k v t at
  proof -
    from that have m: "(k, v, at + t) \<in> set (entries ?s)"
      by (force simp: e)
    then have "k \<in> fst ` set (entries ?s)" by force
    with invariant_index_keys [OF pc(1), of k] get_hit(1) [OF pc(1) m] show ?thesis by simp
  qed
  from g1 h1 e rest show ?thesis by blast
qed

theorem lru_evicts_first_key_witness:
  "(1::int) \<le> 2 \<and>
   length [(''k1'', 1::nat, 60000::int, 0::int), (''k2'', 2, 60000, 1), (''k3'', 3, 60000, 2)] = nat 2 + 1 \<and>
   distinct (map fst [(''k1'', 1::nat, 60000::int, 0::int), (''k2'', 2, 60000, 1), (''k3'', 3, 60000, 2)]) \<and>
   fst (get ''k1'' 5
     (puts [(''k1'', 1::nat, 60000, 0), (''k2'', 2, 60000, 1), (''k3'', 3, 60000, 2)] (constructor 2))) = None \<and>
   fst (get ''k2'' 5
     (puts [(''k1'', 1::nat, 60000, 0), (''k2'', 2, 60000, 1), (''k3'', 3, 60000, 2)] (constructor 2))) = Some 2 \<and>
   fst (get ''k3'' 5
     (puts [(''k1'', 1::nat, 60000, 0), (''k2'', 2, 60000, 1), (''k3'', 3, 60000, 2)] (constructor 2))) = Some 3"
  using lru_evicts_first_key [of 2
      "[(''k1'', 1::nat, 60000, 0), (''k2'', 2, 60000, 1), (''k3'', 3, 60000, 2)]" 5]
  by simp

text \<open>
  C3. For a capacity \<open>N \<ge> 1\<close> and a run of \<open>put\<close> calls on a new cache with pairwise
  distinct keys, look at any one call of the run, from the state \<open>s\<close> before it to the
  state \<open>s'\<close> after it. The index of \<open>s'\<close> has at most \<open>N\<close> keys, as many as the list
  has nodes. If the insertion overflows the capacity, the entries of \<open>s'\<close> are the new entry
  followed by the entries of \<open>s\<close> without the last one (the tail), and the eviction counter
  is one higher; otherwise the new entry is put in front and the counter is unchanged.
\<close>

theorem put_keeps_capacity_bound:
  assumes "1 \<le> N" and "distinct (map fst ps)" and "n < length ps" and "ps ! n = (k, v, t, at)"
  shows "let s = puts (take n ps) (constructor N); s' = puts (take (Suc n) ps) (constructor N) in
           s' = put k v t at s \<and>
           int (length (hash s')) \<le> N \<and> length (entries s') = length (hash s') \<and>
           (if int (length (hash s)) + 1 > N
            then entries s' = (k, v, at + t) # butlast (entries s) \<and>
                 evictionCount s' = evictionCount s + 1 \<and>
                 length (hash s') = length (hash s)
            else entries s' = (k, v, at + t) # entries s \<and>
                 evictionCount s' = evictionCount s \<and>
                 length (hash s') = length (hash s) + 1)"
proof -
  define s where "s = puts (take n ps) (constructor N)"
  define s' where "s' = puts (take (Suc n) ps) (constructor N)"
  let ?f = "\<lambda>(k, v, t, at). (k, v, at + t)"
  have tk: "take (Suc n) ps = take n ps @ [(k, v, t, at)]"
    using assms(3,4) by (simp add: take_Suc_conv_app_nth)
  then have step: "s' = put k v t at s"
    by (simp add: s_def s'_def puts_append)
  from assms(2) have d': "distinct (map fst (take (Suc n) ps))"
    by (simp add: take_map [symmetric] distinct_take)
  then have d: "distinct (map fst (take n ps))" and kn: "k \<notin> fst ` set (take n ps)"
    by (auto simp: tk)
  note pc = puts_constructor [OF assms(1) d, folded s_def]
  note pc' = puts_constructor [OF assms(1) d', folded s'_def]
  have "set (entries s) \<subseteq> ?f ` set (take n ps)"
    unfolding pc(3) using set_take_subset [of "nat N" "rev (map ?f (take n ps))"] by simp
  then have "fst ` set (entries s) \<subseteq> fst ` set (take n ps)"
    by (force simp: case_prod_beta)
  with kn have fresh: "k \<notin> fst ` set (entries s)" by blast
  have ls: "int (length (entries s)) \<le> N" and ls': "int (length (entries s')) \<le> N"
    using assms(1) by (simp_all add: pc(3) pc'(3))
  note hl = invariant_entries(1) [OF pc(1)] and hl' = invariant_entries(1) [OF pc'(1)]
  note pk = put_new_key [OF pc(1) fresh, of v t at, folded step]
  have ov: "entries s \<noteq> []" if "int (length (hash s)) + 1 > N"
    using that assms(1) hl by auto
  have main: "int (length (hash s')) \<le> N \<and> length (entries s') = length (hash s') \<and>
           (if int (length (hash s)) + 1 > N
            then entries s' = (k, v, at + t) # butlast (entries s) \<and>
                 evictionCount s' = evictionCount s + 1 \<and>
                 length (hash s') = length (hash s)
            else entries s' = (k, v, at + t) # entries s \<and>
                 evictionCount s' = evictionCount s \<and>
                 length (hash s') = length (hash s) + 1)"
    using ls' hl hl' pk ov by (auto simp: pc(2))
  show ?thesis
    unfolding Let_def s_def [symmetric] s'_def [symmetric] using step main by blast
qed

theorem put_keeps_capacity_bound_witness:
  "(1::int) \<le> 1 \<and> distinct (map fst [(''a'', 1::int, 10::int, 0::int), (''b'', 2, 10, 3)]) \<and>
   (1::nat) < length [(''a'', 1::int, 10::int, 0::int), (''b'', 2, 10, 3)] \<and>
   [(''a'', 1::int, 10::int, 0::int), (''b'', 2, 10, 3)] ! 1 = (''b'', 2, 10, 3) \<and>
   int (length (hash (put ''b'' (2::int) 10 3 (put ''a'' 1 10 0 (constructor 1))))) \<le> 1 \<and>
   entries (put ''b'' (2::int) 10 3 (put ''a'' 1 10 0 (constructor 1))) = [(''b'', 2, 13)] \<and>
   evictionCount (put ''b'' (2::int) 10 3 (put ''a'' 1 10 0 (constructor 1))) =
     evictionCount (put ''a'' (1::int) 10 0 (constructor 1)) + 1"
proof -
  have e: "entries (put ''a'' (1::int) 10 0 (constructor 1)) = [(''a'', 1, 10)]"
    using put_spec(2) [OF constructor_invariant, of "''a''" "1::int" 10 0 1]
    by (simp add: constructor_entries) (simp add: constructor_def)
  have h: "length (hash (put ''a'' (1::int) 10 0 (constructor 1))) = 1"
    using invariant_entries(1) [OF put_spec(1) [OF constructor_invariant], of "''a''" "1::int" 10 0 1] e
    by simp
  then have ne: "hash (put ''a'' (1::int) 10 0 (constructor 1)) \<noteq> []"
    by auto
  from put_keeps_capacity_bound [of 1 "[(''a'', 1::int, 10, 0), (''b'', 2, 10, 3)]" 1 "''b''" 2 10 3]
  show ?thesis
    using ne by (simp add: Let_def e h)
qed

section \<open>Updating a key\<close>

lemma put_entries_cons:
  fixes k :: string and v :: 'v and t now :: int
  assumes "invariant s" and "1 \<le> capacity s"
  defines "es0 \<equiv> filter (\<lambda>e. fst e \<noteq> k) (entries s)"
  shows "entries (put k v t now s) =
           (k, v, now + t) # (if int (length es0) + 1 > capacity s then butlast es0 else es0)"
proof (cases "int (length es0) + 1 > capacity s")
  case True
  with assms(2) have "es0 \<noteq> []" by auto
  with True put_spec(2) [OF assms(1), of k v t now] show ?thesis
    by (simp add: es0_def)
next
  case False
  with put_spec(2) [OF assms(1), of k v t now] show ?thesis
    by (simp add: es0_def)
qed

lemma put_then_get:
  fixes k :: string and v :: 'v and t at now :: int
  assumes "invariant s" and "1 \<le> capacity s" and "\<not> at + t < now"
  shows "fst (get k now (put k v t at s)) = Some v"
proof -
  have "(k, v, at + t) \<in> set (entries (put k v t at s))"
    by (simp add: put_entries_cons [OF assms(1,2)])
  from get_hit(1) [OF put_spec(1) [OF assms(1)] this assms(3)] show ?thesis .
qed

text \<open>
  C6. From a state that satisfies the invariant, with a capacity of at least one that
  the index does not exceed: after \<open>put(k, v1)\<close> and then \<open>put(k, v2)\<close>, \<open>get(k)\<close> gives
  \<open>v2\<close> (read before the new entry expires), the cache holds as many entries as after
  the first \<open>put\<close>, exactly one of them for \<open>k\<close>, and the second \<open>put\<close> does not count an
  eviction.
\<close>

theorem put_same_key_replaces:
  assumes "invariant s" and "1 \<le> capacity s" and "int (length (hash s)) \<le> capacity s"
  shows "let s1 = put k v1 t1 at1 s; s2 = put k v2 t2 at2 s1 in
           (\<not> at2 + t2 < now \<longrightarrow> fst (get k now s2) = Some v2) \<and>
           length (hash s2) = length (hash s1) \<and>
           length (entries s2) = length (entries s1) \<and>
           entries s2 = (k, v2, at2 + t2) # tl (entries s1) \<and>
           (\<forall>v e. (k, v, e) \<in> set (entries s2) \<longrightarrow> v = v2 \<and> e = at2 + t2) \<and>
           evictionCount s2 = evictionCount s1"
proof -
  define s1 where "s1 = put k v1 t1 at1 s"
  define s2 where "s2 = put k v2 t2 at2 s1"
  define es0 where "es0 = filter (\<lambda>e. fst e \<noteq> k) (entries s)"
  define r where "r = (if int (length es0) + 1 > capacity s then butlast es0 else es0)"
  have i1: "invariant s1" and c1: "capacity s1 = capacity s"
    using put_spec(1,4) [OF assms(1)] by (simp_all add: s1_def)
  have i2: "invariant s2"
    using put_spec(1) [OF i1] by (simp add: s2_def)
  have e1: "entries s1 = (k, v1, at1 + t1) # r"
    unfolding s1_def r_def es0_def by (rule put_entries_cons [OF assms(1,2)])
  have "length es0 \<le> length (entries s)"
    by (simp add: es0_def)
  with assms(3) invariant_entries(1) [OF assms(1)] have l0: "int (length es0) \<le> capacity s"
    by simp
  have "set r \<subseteq> set es0"
    by (auto simp: r_def dest: in_set_butlastD)
  then have fr: "filter (\<lambda>e. fst e \<noteq> k) r = r"
    by (intro filter_True) (auto simp: es0_def)
  have lr: "int (length r) + 1 \<le> capacity s"
  proof (cases "int (length es0) + 1 > capacity s")
    case True
    with assms(2) have "es0 \<noteq> []" by auto
    then have "int (length (butlast es0)) + 1 = int (length es0)"
      by (cases es0 rule: rev_cases) auto
    with True l0 show ?thesis by (simp only: r_def if_True)
  next
    case False
    then show ?thesis by (simp add: r_def)
  qed
  have f1: "filter (\<lambda>e. fst e \<noteq> k) (entries s1) = r"
    by (simp add: e1 fr)
  have e2: "entries s2 = (k, v2, at2 + t2) # r"
    using put_spec(2) [OF i1, of k v2 t2 at2] lr by (simp add: s2_def f1 c1)
  have ev: "evictionCount s2 = evictionCount s1"
    using put_spec(3) [OF i1, of k v2 t2 at2] lr by (simp add: s2_def f1 c1)
  have g: "fst (get k now s2) = Some v2" if "\<not> at2 + t2 < now"
    using get_hit(1) [OF i2 _ that, of k v2] by (simp add: e2)
  have u: "v = v2 \<and> e = at2 + t2" if "(k, v, e) \<in> set (entries s2)" for v e
  proof -
    from invariant_entries(2) [OF i2] have "k \<notin> fst ` set r"
      by (simp add: e2)
    with that show ?thesis unfolding e2 by (auto simp: image_iff)
  qed
  have "length (hash s2) = length (hash s1)"
    by (simp add: invariant_entries(1) [OF i1] invariant_entries(1) [OF i2] e1 e2)
  moreover have "length (entries s2) = length (entries s1)"
    by (simp add: e1 e2)
  moreover have "entries s2 = (k, v2, at2 + t2) # tl (entries s1)"
    by (simp add: e1 e2)
  ultimately show ?thesis
    unfolding Let_def s1_def [symmetric] s2_def [symmetric] using g u ev by blast
qed

theorem put_same_key_replaces_witness:
  "invariant (constructor 2 :: int LRUCache) \<and> 1 \<le> capacity (constructor 2 :: int LRUCache) \<and>
   int (length (hash (constructor 2 :: int LRUCache))) \<le> capacity (constructor 2 :: int LRUCache) \<and>
   fst (get ''k'' 7 (put ''k'' (22::int) 60000 5 (put ''k'' 11 60000 0 (constructor 2)))) = Some 22 \<and>
   length (hash (put ''k'' (22::int) 60000 5 (put ''k'' 11 60000 0 (constructor 2)))) =
     length (hash (put ''k'' (11::int) 60000 0 (constructor 2))) \<and>
   evictionCount (put ''k'' (22::int) 60000 5 (put ''k'' 11 60000 0 (constructor 2))) =
     evictionCount (put ''k'' (11::int) 60000 0 (constructor 2))"
proof -
  have h: "invariant (constructor 2 :: int LRUCache)" "1 \<le> capacity (constructor 2 :: int LRUCache)"
    "int (length (hash (constructor 2 :: int LRUCache))) \<le> capacity (constructor 2 :: int LRUCache)"
    by (simp_all add: invariant_def nodes_def index_ok_def constructor_def)
  from put_same_key_replaces [OF h, of "''k''" 11 60000 0 22 60000 5 7] h
  show ?thesis by (simp add: Let_def)
qed

section \<open>Version 1.0.1 compared\<close>

text \<open>
  The older \<open>get\<close> agrees with the newer one except on an expired entry, which it unlinks
  and drops from the index; the older \<open>clear\<close> empties the cache and leaves the counters.
\<close>

lemma index_ts_get_removes_expired:
  assumes "invariant s" and "(k, v, e) \<in> set (entries s)" and "e < now"
  shows "fst (index_ts_get k now s) = None"
    and "missCount (snd (index_ts_get k now s)) = missCount s + 1"
    and "map_of (hash (snd (index_ts_get k now s))) k = None"
    and "entries (snd (index_ts_get k now s)) = filter (\<lambda>x. fst x \<noteq> k) (entries s)"
proof -
  from invariant_rep [OF assms(1)] obtain rs where rs: "rep s rs" ..
  from entries_lookup [OF rs assms(2)] obtain r nd where
    r: "map_of (hash s) k = Some r" "heap s r = Some nd" and "ttl nd = e"
    by blast
  with assms(3) have x: "ttl nd < now" by simp
  note g = index_ts_get_expired [OF r x]
  note ev = evict_rep [OF rs r(1)]
  show "fst (index_ts_get k now s) = None"
    and "missCount (snd (index_ts_get k now s)) = missCount s + 1"
    and "map_of (hash (snd (index_ts_get k now s))) k = None"
    by (simp_all add: g ev(2))
  have "entries (evict r s) = map (the \<circ> info (heap s)) (removeAll r rs)"
    using rep_entries [OF ev(1)] by (simp add: evict_frame)
  then show "entries (snd (index_ts_get k now s)) = filter (\<lambda>x. fst x \<noteq> k) (entries s)"
    by (simp add: g rep_entries_remove [OF rs r(1)])
qed

lemma index_ts_get_not_expired:
  assumes "invariant s" and "\<And>v e. (k, v, e) \<in> set (entries s) \<Longrightarrow> \<not> e < now"
  shows "index_ts_get k now s = get k now s"
proof (cases "map_of (hash s) k")
  case None
  then show ?thesis by (simp add: index_ts_get_def get_def)
next
  case (Some r)
  from invariant_rep [OF assms(1)] obtain rs where rs: "rep s rs" ..
  from entries_present [OF rs Some] obtain nd where
    nd: "heap s r = Some nd" "(k, value nd, ttl nd) \<in> set (entries s)" by blast
  from assms(2) [OF nd(2)] show ?thesis
    by (rule index_ts_get_fresh [OF Some nd(1)])
qed

lemma index_ts_clear_keeps_counters:
  "hitCount (index_ts_clear s) = hitCount s \<and> missCount (index_ts_clear s) = missCount s \<and>
   evictionCount (index_ts_clear s) = evictionCount s \<and> hash (index_ts_clear s) = [] \<and>
   head (index_ts_clear s) = None \<and> tail (index_ts_clear s) = None"
  by (simp add: index_ts_clear_def)

lemma index_ts_get_hit:
  assumes "invariant s" and "(k, v, e) \<in> set (entries s)" and "\<not> e < now"
  shows "index_ts_get k now s = get k now s"
proof -
  from invariant_rep [OF assms(1)] obtain rs where rs: "rep s rs" ..
  from entries_lookup [OF rs assms(2)] obtain r nd where
    "map_of (hash s) k = Some r" "heap s r = Some nd" "ttl nd = e"
    by blast
  with assms(3) show ?thesis
    by (intro index_ts_get_fresh) auto
qed

section \<open>Expiry\<close>

lemma gets_keep:
  assumes "invariant s" and "(k, v, e) \<in> set (entries s)" and "\<forall>t\<in>set ts. \<not> e < t"
  shows "invariant (gets k ts s) \<and> (k, v, e) \<in> set (entries (gets k ts s)) \<and>
         hitCount (gets k ts s) = hitCount s + length ts"
  using assms
proof (induction ts arbitrary: s)
  case Nil
  then show ?case by simp
next
  case (Cons t ts)
  from Cons.prems have ne: "\<not> e < t" by simp
  note h = get_hit [OF Cons.prems(1,2) ne]
  have "(k, v, e) \<in> set (entries (snd (get k t s)))"
    by (simp add: h(3))
  from Cons.IH [OF h(2) this] Cons.prems(3) show ?case
    by (simp add: h(4))
qed

text \<open>
  C5, as the code has it. A key whose entry is in the cache with an expiry time before
  the current time: \<open>get\<close> and \<open>getOption\<close> of version 1.3.0 give nothing and change only
  the miss counter, which goes up by one, so the expired node stays in the index and in the
  list. The \<open>get\<close> of version 1.0.1 also gives nothing and counts one miss, but it unlinks
  the expired node and removes its key from the index. Before expiry the entry is returned
  by both: after \<open>put\<close> with a TTL of 1000 ms the read 500 ms later gives the value, and
  a further read 1100 ms after the \<open>put\<close> gives nothing and counts a miss.
\<close>

theorem expired_read_is_a_miss:
  assumes "invariant s"
  shows "((k, v, e) \<in> set (entries s) \<and> e < now \<longrightarrow>
            get k now s = (None, s\<lparr>missCount := missCount s + 1\<rparr>) \<and>
            getOption k now s = (OptionNone, s\<lparr>missCount := missCount s + 1\<rparr>) \<and>
            hash (snd (get k now s)) = hash s \<and> heap (snd (get k now s)) = heap s \<and>
            head (snd (get k now s)) = head s \<and> tail (snd (get k now s)) = tail s \<and>
            entries (snd (get k now s)) = entries s \<and>
            fst (index_ts_get k now s) = None \<and>
            missCount (snd (index_ts_get k now s)) = missCount s + 1 \<and>
            map_of (hash (snd (index_ts_get k now s))) k = None \<and>
            entries (snd (index_ts_get k now s)) = filter (\<lambda>x. fst x \<noteq> k) (entries s)) \<and>
         (1 \<le> capacity s \<longrightarrow>
            (\<not> at + t < now \<longrightarrow>
               fst (get k now (put k v t at s)) = Some v \<and>
               index_ts_get k now (put k v t at s) = get k now (put k v t at s)) \<and>
            (let s1 = put k v 1000 at s; s2 = snd (get k (at + 500) s1) in
               fst (get k (at + 500) s1) = Some v \<and>
               get k (at + 1100) s2 = (None, s2\<lparr>missCount := missCount s2 + 1\<rparr>) \<and>
               missCount (snd (get k (at + 1100) s2)) = missCount s + 1))"
proof -
  have a: "get k now s = (None, s\<lparr>missCount := missCount s + 1\<rparr>)"
    if "(k, v, e) \<in> set (entries s)" "e < now"
    using that by (rule get_expired [OF assms])
  have b: "getOption k now s = (OptionNone, s\<lparr>missCount := missCount s + 1\<rparr>)"
    if "(k, v, e) \<in> set (entries s)" "e < now"
    using a [OF that] getOption_fst [of k now s] getOption_snd [of k now s]
    by (simp add: prod_eq_iff toOption_def)
  have c: "fst (get k now (put k v t at s)) = Some v" if "1 \<le> capacity s" "\<not> at + t < now"
    using that by (rule put_then_get [OF assms])
  have c': "index_ts_get k now (put k v t at s) = get k now (put k v t at s)"
    if cap: "1 \<le> capacity s" and ne: "\<not> at + t < now"
  proof (rule index_ts_get_not_expired [OF put_spec(1) [OF assms]])
    fix v' e' assume m: "(k, v', e') \<in> set (entries (put k v t at s))"
    have "(k, v, at + t) \<in> set (entries (put k v t at s))"
      by (simp add: put_entries_cons [OF assms cap])
    with m invariant_entries(2) [OF put_spec(1) [OF assms], of k v t at] have "e' = at + t"
      by (metis eq_key_imp_eq_value prod.inject)
    with ne show "\<not> e' < now" by simp
  qed
  have x: "fst (index_ts_get k now s) = None \<and>
            missCount (snd (index_ts_get k now s)) = missCount s + 1 \<and>
            map_of (hash (snd (index_ts_get k now s))) k = None \<and>
            entries (snd (index_ts_get k now s)) = filter (\<lambda>x. fst x \<noteq> k) (entries s)"
    if "(k, v, e) \<in> set (entries s)" "e < now"
    using index_ts_get_removes_expired [OF assms that] by simp
  have p1: "get k now s = (None, s\<lparr>missCount := missCount s + 1\<rparr>) \<and>
            getOption k now s = (OptionNone, s\<lparr>missCount := missCount s + 1\<rparr>) \<and>
            hash (snd (get k now s)) = hash s \<and> heap (snd (get k now s)) = heap s \<and>
            head (snd (get k now s)) = head s \<and> tail (snd (get k now s)) = tail s \<and>
            entries (snd (get k now s)) = entries s"
    if "(k, v, e) \<in> set (entries s)" "e < now"
    using a [OF that] b [OF that] by (simp add: entries_missCount_update)
  have d: "let s1 = put k v 1000 at s; s2 = snd (get k (at + 500) s1) in
               fst (get k (at + 500) s1) = Some v \<and>
               get k (at + 1100) s2 = (None, s2\<lparr>missCount := missCount s2 + 1\<rparr>) \<and>
               missCount (snd (get k (at + 1100) s2)) = missCount s + 1"
    if cap: "1 \<le> capacity s"
  proof -
    define s1 where "s1 = put k v 1000 at s"
    define s2 where "s2 = snd (get k (at + 500) s1)"
    have i1: "invariant s1" and m1: "missCount s1 = missCount s"
      using put_spec(1,6) [OF assms] by (simp_all add: s1_def)
    have e1: "(k, v, at + 1000) \<in> set (entries s1)"
      by (simp add: s1_def put_entries_cons [OF assms cap])
    have ne: "\<not> at + 1000 < at + 500" by simp
    note h = get_hit [OF i1 e1 ne, folded s2_def]
    have e2: "(k, v, at + 1000) \<in> set (entries s2)"
      by (simp add: h(3))
    have ex: "at + 1000 < at + 1100" by simp
    note g = get_expired [OF h(2) e2 ex]
    from h(1) g h(5) m1 show ?thesis
      unfolding Let_def s1_def [symmetric] s2_def [symmetric] by simp
  qed
  from p1 x c c' d show ?thesis
    by blast
qed

theorem expired_read_is_a_miss_witness:
  "invariant (put ''k'' (7::int) 1000 0 (constructor 1)) \<and>
   (''k'', 7, 1000) \<in> set (entries (put ''k'' (7::int) 1000 0 (constructor 1))) \<and>
   (1000::int) < 1100 \<and>
   get ''k'' 1100 (put ''k'' (7::int) 1000 0 (constructor 1)) =
     (None, (put ''k'' (7::int) 1000 0 (constructor 1))
        \<lparr>missCount := missCount (put ''k'' (7::int) 1000 0 (constructor 1)) + 1\<rparr>) \<and>
   1 \<le> capacity (constructor 1 :: int LRUCache) \<and>
   fst (get ''k'' 500 (put ''k'' (7::int) 1000 0 (constructor 1))) = Some 7"
proof -
  have i0: "invariant (constructor 1 :: int LRUCache)"
    by (simp add: invariant_def nodes_def index_ok_def constructor_def)
  have c0: "1 \<le> capacity (constructor 1 :: int LRUCache)"
    by (simp add: constructor_def)
  have i: "invariant (put ''k'' (7::int) 1000 0 (constructor 1))"
    by (simp add: invariant_def nodes_def index_ok_def constructor_def put_def prepend_def
        Let_def key_of_def prev_of_def next_of_def)
  have e: "(''k'', 7, 1000) \<in> set (entries (put ''k'' (7::int) 1000 0 (constructor 1)))"
    by (simp add: entries_def nodes_def constructor_def put_def prepend_def Let_def info_def
        List.map_filter_simps)
  from expired_read_is_a_miss
         [OF i, of "''k''" 7 1000 1100 0 1000]
       expired_read_is_a_miss
         [OF i0, of "''k''" 7 1000 500 0 1000] i e c0
  show ?thesis by simp
qed

text \<open>
  C5 as claimed fails for the \<open>get\<close> of version 1.0.1: the entry of \<open>k\<close>, put at time 0
  with a TTL of 1000 ms, is in the index before the read at time 1100 and is gone from the
  index and from the list after it.
\<close>

theorem expired_read_removes_node_counterexample:
  "map_of (hash (put ''k'' (7::int) 1000 0 (constructor 1))) ''k'' = Some 0 \<and>
   fst (index_ts_get ''k'' 1100 (put ''k'' (7::int) 1000 0 (constructor 1))) = None \<and>
   hash (snd (index_ts_get ''k'' 1100 (put ''k'' (7::int) 1000 0 (constructor 1)))) = [] \<and>
   head (snd (index_ts_get ''k'' 1100 (put ''k'' (7::int) 1000 0 (constructor 1)))) = None \<and>
   tail (snd (index_ts_get ''k'' 1100 (put ''k'' (7::int) 1000 0 (constructor 1)))) = None"
  by (simp add: index_ts_get_def evict_def constructor_def put_def prepend_def Let_def
      key_of_def prev_of_def next_of_def upd_prev_def upd_next_def)

section \<open>Promotion on a hit\<close>

text \<open>
  C10. A hit does not change the expiry time of the entry: the node that \<open>get\<close> or
  \<open>getOption\<close> puts at the head for the key holds the key, the value and the \<open>ttl\<close>
  field (the absolute expiry time) of the node that was found; the \<open>get\<close> of version
  1.0.1 does the same as the newer one on a hit. After any number of hits the entry of the
  key still has the expiry time it had before them.
\<close>

theorem hit_keeps_expiry_time:
  assumes "invariant s" and "map_of (hash s) k = Some r" and "heap s r = Some nd"
    and "\<not> ttl nd < now"
  shows "(\<exists>r' nd'. head (snd (get k now s)) = Some r' \<and>
            map_of (hash (snd (get k now s))) k = Some r' \<and>
            heap (snd (get k now s)) r' = Some nd' \<and>
            key nd' = k \<and> value nd' = value nd \<and> ttl nd' = ttl nd) \<and>
         snd (getOption k now s) = snd (get k now s) \<and>
         fst (get k now s) = Some (value nd) \<and>
         fst (getOption k now s) = OptionSome (value nd) \<and>
         index_ts_get k now s = get k now s \<and>
         ((\<forall>t\<in>set ts. \<not> ttl nd < t) \<longrightarrow>
            (k, value nd, ttl nd) \<in> set (entries (gets k ts s)) \<and>
            (\<forall>v e. (k, v, e) \<in> set (entries (gets k ts s)) \<longrightarrow> e = ttl nd))"
proof -
  from invariant_rep [OF assms(1)] obtain rs where rs: "rep s rs" ..
  note h = get_hit_rep [OF rs assms(2,3,4)]
  from h(10) obtain nd' where "heap (snd (get k now s)) (allocated s) = Some nd'"
    "key nd' = k" "value nd' = value nd" "ttl nd' = ttl nd"
    by (auto simp: info_Some_iff)
  with h(8,9) have p1: "\<exists>r' nd'. head (snd (get k now s)) = Some r' \<and>
            map_of (hash (snd (get k now s))) k = Some r' \<and>
            heap (snd (get k now s)) r' = Some nd' \<and>
            key nd' = k \<and> value nd' = value nd \<and> ttl nd' = ttl nd"
    by blast
  have p2: "fst (getOption k now s) = OptionSome (value nd)"
    by (simp add: getOption_fst h(1) toOption_def)
  from entries_present [OF rs assms(2)] assms(3)
  have m: "(k, value nd, ttl nd) \<in> set (entries s)" by auto
  have p3: "(k, value nd, ttl nd) \<in> set (entries (gets k ts s)) \<and>
            (\<forall>v e. (k, v, e) \<in> set (entries (gets k ts s)) \<longrightarrow> e = ttl nd)"
    if "\<forall>t\<in>set ts. \<not> ttl nd < t"
  proof -
    from gets_keep [OF assms(1) m that]
    have i: "invariant (gets k ts s)" and g: "(k, value nd, ttl nd) \<in> set (entries (gets k ts s))"
      by simp_all
    have "e = ttl nd" if "(k, v, e) \<in> set (entries (gets k ts s))" for v e
      using invariant_entries(2) [OF i] g that
      by (metis eq_key_imp_eq_value prod.inject)
    with g show ?thesis by blast
  qed
  note p4 = index_ts_get_fresh [OF assms(2,3,4)]
  from p1 p2 p3 p4 h(1) show ?thesis
    by (simp add: getOption_snd)
qed

theorem hit_keeps_expiry_time_witness:
  "invariant (put ''k'' (7::int) 1000 0 (constructor 1)) \<and>
   map_of (hash (put ''k'' (7::int) 1000 0 (constructor 1))) ''k'' = Some 0 \<and>
   heap (put ''k'' (7::int) 1000 0 (constructor 1)) 0 =
     Some \<lparr>key = ''k'', value = 7, ttl = 1000, prev = None, next = None\<rparr> \<and>
   \<not> (1000::int) < 500 \<and>
   (''k'', 7, 1000) \<in> set (entries (gets ''k'' [600, 700]
      (put ''k'' (7::int) 1000 0 (constructor 1)))) \<and>
   fst (get ''k'' 500 (put ''k'' (7::int) 1000 0 (constructor 1))) = Some 7"
proof -
  have i: "invariant (put ''k'' (7::int) 1000 0 (constructor 1))"
    by (simp add: invariant_def nodes_def index_ok_def constructor_def put_def prepend_def
        Let_def key_of_def prev_of_def next_of_def)
  have m: "map_of (hash (put ''k'' (7::int) 1000 0 (constructor 1))) ''k'' = Some 0"
    by (simp add: constructor_def put_def prepend_def Let_def)
  have h: "heap (put ''k'' (7::int) 1000 0 (constructor 1)) 0 =
     Some \<lparr>key = ''k'', value = 7, ttl = 1000, prev = None, next = None\<rparr>"
    by (simp add: constructor_def put_def prepend_def Let_def)
  have n: "\<not> ttl \<lparr>key = ''k'', value = 7::int, ttl = 1000, prev = None, next = None\<rparr> < 500"
    by simp
  from hit_keeps_expiry_time [OF i m h n, of "[600, 700]"] i m h
  show ?thesis by simp
qed

text \<open>
  C2. A hit moves the entry to the head: after a \<open>get\<close> of a key whose entry has not
  expired, the entries are that entry followed by the others in their old order (the
  \<open>get\<close> of version 1.0.1 does the same as the newer one on such a key). With
  capacity 3, after \<open>put(a)\<close>, \<open>put(b)\<close>, \<open>put(c)\<close>, \<open>get(a)\<close> and \<open>put(d)\<close> for four
  different keys, with \<open>a\<close> not expired when it is read, the cache holds \<open>d\<close>, \<open>a\<close>,
  \<open>c\<close>: \<open>get(b)\<close> gives nothing and \<open>get(a)\<close> gives the value of \<open>a\<close>.
\<close>

theorem get_promotes_entry_to_head:
  "(invariant (s :: 'v LRUCache) \<and> (k, v, e) \<in> set (entries s) \<and> \<not> e < now \<longrightarrow>
      fst (get k now s) = Some v \<and>
      entries (snd (get k now s)) = (k, v, e) # filter (\<lambda>x. fst x \<noteq> k) (entries s) \<and>
      index_ts_get k now s = get k now s) \<and>
   (distinct [a, b, c, d] \<and> \<not> ata + ta < now1 \<and> \<not> ata + ta < now2 \<longrightarrow>
      (let s5 = put d vd td atd (snd (get a now1
                  (put c vc tc atc (put b vb tb atb (put a va ta ata (constructor 3 :: 'v LRUCache))))))
       in entries s5 = [(d, vd, atd + td), (a, va, ata + ta), (c, vc, atc + tc)] \<and>
          fst (get b now3 s5) = None \<and> map_of (hash s5) b = None \<and>
          fst (get a now2 s5) = Some va))"
proof -
  have general: "fst (get k now s) = Some v \<and>
      entries (snd (get k now s)) = (k, v, e) # filter (\<lambda>x. fst x \<noteq> k) (entries s) \<and>
      index_ts_get k now s = get k now s"
    if "invariant s" "(k, v, e) \<in> set (entries s)" "\<not> e < now"
    using get_hit(1,3) [OF that] index_ts_get_hit [OF that] by simp
  have scenario: "let s5 = put d vd td atd (snd (get a now1
                  (put c vc tc atc (put b vb tb atb (put a va ta ata (constructor 3))))))
       in entries s5 = [(d, vd, atd + td), (a, va, ata + ta), (c, vc, atc + tc)] \<and>
          fst (get b now3 s5) = None \<and> map_of (hash s5) b = None \<and>
          fst (get a now2 s5) = Some va"
    if dist: "distinct [a, b, c, d]" and n1: "\<not> ata + ta < now1" and n2: "\<not> ata + ta < now2"
  proof -
    from dist have ne: "a \<noteq> b" "a \<noteq> c" "a \<noteq> d" "b \<noteq> a" "b \<noteq> c" "b \<noteq> d"
      "c \<noteq> a" "c \<noteq> b" "c \<noteq> d" "d \<noteq> a" "d \<noteq> b" "d \<noteq> c"
      by auto
    define s1 where "s1 = put a va ta ata (constructor 3)"
    define s2 where "s2 = put b vb tb atb s1"
    define s3 where "s3 = put c vc tc atc s2"
    define s4 where "s4 = snd (get a now1 s3)"
    define s5 where "s5 = put d vd td atd s4"
    note p1 = put_spec [OF constructor_invariant, of a va ta ata 3, folded s1_def]
    have c1: "capacity s1 = 3" using p1(4) by (simp add: constructor_def)
    have e1: "entries s1 = [(a, va, ata + ta)]"
      using p1(2) by (simp add: constructor_entries) (simp add: constructor_def)
    note p2 = put_spec [OF p1(1), of b vb tb atb, folded s2_def]
    have c2: "capacity s2 = 3" using p2(4) c1 by simp
    have e2: "entries s2 = [(b, vb, atb + tb), (a, va, ata + ta)]"
      using p2(2) ne by (simp add: e1 c1)
    note p3 = put_spec [OF p2(1), of c vc tc atc, folded s3_def]
    have c3: "capacity s3 = 3" using p3(4) c2 by simp
    have e3: "entries s3 = [(c, vc, atc + tc), (b, vb, atb + tb), (a, va, ata + ta)]"
      using p3(2) ne by (simp add: e2 c2)
    have m3: "(a, va, ata + ta) \<in> set (entries s3)" by (simp add: e3)
    note g4 = get_hit [OF p3(1) m3 n1, folded s4_def]
    have c4: "capacity s4 = 3" using g4(7) c3 by simp
    have e4: "entries s4 = [(a, va, ata + ta), (c, vc, atc + tc), (b, vb, atb + tb)]"
      using g4(3) ne by (simp add: e3)
    note p5 = put_spec [OF g4(2), of d vd td atd, folded s5_def]
    have e5: "entries s5 = [(d, vd, atd + td), (a, va, ata + ta), (c, vc, atc + tc)]"
      using p5(2) ne by (simp add: e4 c4)
    have nb: "b \<notin> fst ` set (entries s5)"
      using ne by (simp add: e5)
    have gb: "fst (get b now3 s5) = None"
      using get_absent [OF p5(1) nb] by simp
    have hb: "map_of (hash s5) b = None"
      using invariant_index_keys [OF p5(1), of b] nb by simp
    have m5: "(a, va, ata + ta) \<in> set (entries s5)" by (simp add: e5)
    have ga: "fst (get a now2 s5) = Some va"
      by (rule get_hit(1) [OF p5(1) m5 n2])
    from e5 gb hb ga show ?thesis
      unfolding Let_def s1_def [symmetric] s2_def [symmetric] s3_def [symmetric]
        s4_def [symmetric] s5_def [symmetric]
      by blast
  qed
  from general scenario show ?thesis by blast
qed

theorem get_promotes_entry_to_head_witness:
  "invariant (put ''a'' (1::int) 60000 0 (constructor 3)) \<and>
   (''a'', 1, 60000) \<in> set (entries (put ''a'' (1::int) 60000 0 (constructor 3))) \<and>
   \<not> (60000::int) < 4 \<and>
   fst (get ''a'' 4 (put ''a'' (1::int) 60000 0 (constructor 3))) = Some 1 \<and>
   distinct [''a'', ''b'', ''c'', ''d''] \<and> \<not> (0::int) + 60000 < 4 \<and> \<not> (0::int) + 60000 < 7 \<and>
   fst (get ''b'' 6 (put ''d'' (4::int) 60000 5 (snd (get ''a'' 4
      (put ''c'' 3 60000 2 (put ''b'' 2 60000 1 (put ''a'' 1 60000 0 (constructor 3)))))))) = None \<and>
   fst (get ''a'' 7 (put ''d'' (4::int) 60000 5 (snd (get ''a'' 4
      (put ''c'' 3 60000 2 (put ''b'' 2 60000 1 (put ''a'' 1 60000 0 (constructor 3)))))))) = Some 1"
proof -
  have i: "invariant (put ''a'' (1::int) 60000 0 (constructor 3))"
    by (simp add: invariant_def nodes_def index_ok_def constructor_def put_def prepend_def
        Let_def key_of_def prev_of_def next_of_def)
  have e: "(''a'', 1, 60000) \<in> set (entries (put ''a'' (1::int) 60000 0 (constructor 3)))"
    by (simp add: entries_def nodes_def constructor_def put_def prepend_def Let_def info_def
        List.map_filter_simps)
  from get_promotes_entry_to_head [of "put ''a'' (1::int) 60000 0 (constructor 3)" "''a''" 1 60000 4
      "''a''" "''b''" "''c''" "''d''" 0 60000 4 7 "4::int" 60000 5 "3::int" 60000 2 "2::int" 60000 1 "1::int" 6] i e
  show ?thesis by (simp add: Let_def)
qed

section \<open>Clearing in version 1.0.1\<close>

text \<open>
  C7 on the \<open>clear\<close> of version 1.0.1 (\<open>src/index.ts\<close>). After \<open>put(a)\<close>, a hit on \<open>a\<close>
  and a miss on \<open>b\<close>, \<open>clear()\<close> empties the index and unsets head and tail, but the hit
  and miss counters keep the value 1; the \<open>clear\<close> of version 1.3.0 sets them to zero in
  the same state.
\<close>

theorem index_ts_clear_leaves_counters:
  "hash (index_ts_clear (snd (index_ts_get ''b'' 2 (snd (index_ts_get ''a'' 1
      (put ''a'' (7::int) 60000 0 (constructor 3))))))) = [] \<and>
   head (index_ts_clear (snd (index_ts_get ''b'' 2 (snd (index_ts_get ''a'' 1
      (put ''a'' (7::int) 60000 0 (constructor 3))))))) = None \<and>
   hitCount (index_ts_clear (snd (index_ts_get ''b'' 2 (snd (index_ts_get ''a'' 1
      (put ''a'' (7::int) 60000 0 (constructor 3))))))) = 1 \<and>
   missCount (index_ts_clear (snd (index_ts_get ''b'' 2 (snd (index_ts_get ''a'' 1
      (put ''a'' (7::int) 60000 0 (constructor 3))))))) = 1 \<and>
   hitCount (clear (snd (index_ts_get ''b'' 2 (snd (index_ts_get ''a'' 1
      (put ''a'' (7::int) 60000 0 (constructor 3))))))) = 0 \<and>
   missCount (clear (snd (index_ts_get ''b'' 2 (snd (index_ts_get ''a'' 1
      (put ''a'' (7::int) 60000 0 (constructor 3))))))) = 0"
  by (simp add: index_ts_clear_def clear_def clearMetrics_def index_ts_get_def evict_def
      constructor_def put_def prepend_def Let_def key_of_def prev_of_def next_of_def
      upd_prev_def upd_next_def)

section \<open>The capacity bound is kept\<close>

text \<open>
  The bound I3 of the specification, the index holding no more keys than the capacity, is
  kept by every operation of a cache whose capacity is not negative.
\<close>

lemma get_size:
  assumes "invariant s"
  shows "length (hash (snd (get k now s))) = length (hash s)"
proof (cases "k \<in> fst ` set (entries s)")
  case False
  with assms show ?thesis by (simp add: get_absent)
next
  case True
  then obtain v e where ke: "(k, v, e) \<in> set (entries s)" by force
  show ?thesis
  proof (cases "e < now")
    case True
    with assms ke show ?thesis by (simp add: get_expired)
  next
    case False
    from invariant_rep [OF assms] obtain rs where rs: "rep s rs" ..
    from entries_lookup [OF rs ke] obtain r nd where
      r: "map_of (hash s) k = Some r" "heap s r = Some nd" "ttl nd = e" by blast
    with False have ne: "\<not> ttl nd < now" by simp
    from rs r(1) have "r \<in> set rs"
      using index_okD(2) [of "key_of (heap s)" "hash s" rs k r] by (simp add: rep_def)
    with rep_distinct [OF rs] have "length (removeAll r rs) = length rs - 1"
      by (simp add: distinct_remove1_removeAll [symmetric] length_remove1)
    moreover from \<open>r \<in> set rs\<close> have "0 < length rs" by (cases rs) auto
    ultimately show ?thesis
      using rep_length_hash [OF get_hit_rep(2) [OF rs r(1,2) ne]] rep_length_hash [OF rs]
      by simp
  qed
qed

lemma size_bound_kept:
  assumes "invariant s" and "0 \<le> capacity s" and "int (length (hash s)) \<le> capacity s"
  shows "int (length (hash (put k v t now s))) \<le> capacity (put k v t now s)"
    and "int (length (hash (snd (get k now s)))) \<le> capacity (snd (get k now s))"
    and "int (length (hash (clear s))) \<le> capacity (clear s)"
proof -
  define es where "es = (k, v, now + t) # filter (\<lambda>e. fst e \<noteq> k) (entries s)"
  have "length (filter (\<lambda>e. fst e \<noteq> k) (entries s)) \<le> length (entries s)"
    by (rule length_filter_le)
  with assms(3) invariant_entries(1) [OF assms(1)] have l: "int (length es) \<le> capacity s + 1"
    by (simp only: es_def length_Cons)
  have b: "int (length (butlast es)) = int (length es) - 1"
    by (simp add: es_def)
  have "int (length (if int (length es) > capacity s then butlast es else es)) \<le> capacity s"
  proof (cases "int (length es) > capacity s")
    case True
    with l b show ?thesis by simp
  next
    case False
    then show ?thesis by simp
  qed
  then show "int (length (hash (put k v t now s))) \<le> capacity (put k v t now s)"
    using put_spec(2,4) [OF assms(1), of k v t now]
      invariant_entries(1) [OF put_spec(1) [OF assms(1)], of k v t now]
    by (simp only: es_def)
  have "capacity (snd (get k now s)) = capacity s"
    by (simp add: get_def evict_def prepend_def Let_def split: option.splits prod.splits)
  with assms(3) show "int (length (hash (snd (get k now s)))) \<le> capacity (snd (get k now s))"
    by (simp add: get_size [OF assms(1)])
  from assms(2) show "int (length (hash (clear s))) \<le> capacity (clear s)"
    by (simp add: clear_def clearMetrics_def)
qed

section \<open>A capacity that is not positive\<close>

text \<open>
  What a cache with a capacity of zero or less does: a \<open>put\<close> into the empty cache
  links the new node, finds the index above the capacity and pops that same node again, so
  the cache stays empty and every \<open>put\<close> counts one eviction.
\<close>

lemma put_nonpositive_capacity:
  fixes k :: string and v :: 'v and t now :: int
  assumes "invariant s" and "entries s = []" and "capacity s \<le> 0"
  shows "entries (put k v t now s) = []"
    and "evictionCount (put k v t now s) = evictionCount s + 1"
    and "fst (get k now' (put k v t now s)) = None"
proof -
  show e: "entries (put k v t now s) = []"
    using put_spec(2) [OF assms(1), of k v t now] assms(2,3) by simp
  show "evictionCount (put k v t now s) = evictionCount s + 1"
    using put_spec(3) [OF assms(1), of k v t now] assms(2,3) by simp
  show "fst (get k now' (put k v t now s)) = None"
    using get_absent [OF put_spec(1) [OF assms(1)], of k k v t now now'] by (simp add: e)
qed

end
